theory Spec2Isabelle
  imports Complex_Main "HOL-Library.Multiset" "HOL-Library.Option_ord" "HOL-Library.Monad_Syntax"
begin

section \<open>Data model of the backgammon engine\<close>

text \<open>
  The engine works on plain JavaScript objects.  A board point is
  \<^verbatim>\<open>{ player: 0|1|2, count: n }\<close>; the board is an array of 25 such
  objects of which the indices 1..24 are the points (index 0 is unused padding);
  \<^verbatim>\<open>bar\<close> and \<^verbatim>\<open>bearoff\<close> are objects with the two keys
  \<^verbatim>\<open>player1\<close> and \<^verbatim>\<open>player2\<close>.  Numbers that only ever hold checker
  counts, point indices and die values are modelled as \<open>int\<close>, the player tag as
  \<open>nat\<close>.

  An array read \<^verbatim>\<open>board[i]\<close> is the list access \<open>pointAt\<close>.  In the source
  a read outside the array gives \<^verbatim>\<open>undefined\<close> and the property access
  that follows throws; the model has no such branch, so every statement below that
  speaks about an arbitrary index carries the range \<open>1..24\<close> and the board length
  \<open>25\<close> as hypotheses.  The lookup \<^verbatim>\<open>bar[`player${player}`]\<close> is \<open>getP\<close>;
  it is meaningful for the players 1 and 2 only, and the statements say so.
\<close>

record point =
  player :: nat
  count :: int

record per_player =
  player1 :: int
  player2 :: int

record game_state =
  board :: "point list"
  bar :: per_player
  bearoff :: per_player
  currentPlayer :: nat
  availableMoves :: "int list"

text \<open>A move source is the string \<^verbatim>\<open>"bar"\<close> or a point number, a move
  destination the string \<^verbatim>\<open>"bearoff"\<close> or a point number.\<close>

datatype source = Bar | Pt int

datatype dest = Bearoff | To int

text \<open>The oracle returns objects \<^verbatim>\<open>{ to, die }\<close>; the generator extends them to
  \<^verbatim>\<open>{ from, to, die }\<close>.\<close>

record valid_move =
  to_pt :: dest
  die :: int

record move = valid_move +
  from_pt :: source

definition pointAt :: "game_state \<Rightarrow> int \<Rightarrow> point" where
  "pointAt gs i = board gs ! nat i"

definition getP :: "per_player \<Rightarrow> nat \<Rightarrow> int" where
  "getP b pl = (if pl = 1 then player1 b else player2 b)"

definition setP :: "per_player \<Rightarrow> nat \<Rightarrow> int \<Rightarrow> per_player" where
  "setP b pl v = (if pl = 1 then b\<lparr>player1 := v\<rparr> else b\<lparr>player2 := v\<rparr>)"

definition setPoint :: "game_state \<Rightarrow> int \<Rightarrow> point \<Rightarrow> game_state" where
  "setPoint gs i x = gs\<lparr>board := (board gs)[nat i := x]\<rparr>"

section \<open>Legal single-move oracle\<close>

definition canMoveToPointForAI :: "game_state \<Rightarrow> int \<Rightarrow> nat \<Rightarrow> bool" where
  "canMoveToPointForAI gs toPoint pl =
     (if toPoint < 1 \<or> toPoint > 24 then False
      else if \<not> nat toPoint < length (board gs) then False
      else let pointState = pointAt gs toPoint in
        if player pointState = 0 \<or> player pointState = pl then True
        else if player pointState \<noteq> pl \<and> count pointState = 1 then True
        else False)"

definition occupiedBy :: "game_state \<Rightarrow> nat \<Rightarrow> int \<Rightarrow> bool" where
  "occupiedBy gs pl p = (player (pointAt gs p) = pl \<and> count (pointAt gs p) > 0)"

definition allCheckersInHomeBoardForAI :: "game_state \<Rightarrow> nat \<Rightarrow> bool" where
  "allCheckersInHomeBoardForAI gs pl =
     (if getP (bar gs) pl > 0 then False
      else if pl = 1 then \<not> list_ex (occupiedBy gs 1) [1..18]
      else \<not> list_ex (occupiedBy gs 2) [7..24])"

definition canBearOffForAI :: "game_state \<Rightarrow> int \<Rightarrow> int \<Rightarrow> nat \<Rightarrow> bool" where
  "canBearOffForAI gs fromPoint dieValue pl =
     (if \<not> allCheckersInHomeBoardForAI gs pl then False
      else let toPoint = (if pl = 1 then fromPoint + dieValue else fromPoint - dieValue) in
        if (pl = 1 \<and> toPoint = 25) \<or> (pl = 2 \<and> toPoint = 0) then True
        else if (pl = 1 \<and> toPoint > 25) \<or> (pl = 2 \<and> toPoint < 0) then
          (if pl = 1 then \<not> list_ex (occupiedBy gs 1) (rev [19..fromPoint - 1])
           else \<not> list_ex (occupiedBy gs 2) [fromPoint + 1..6])
        else False)"

definition getValidMovesForAI ::
  "game_state \<Rightarrow> source \<Rightarrow> int list \<Rightarrow> nat \<Rightarrow> valid_move list" where
  "getValidMovesForAI gs fromPoint avail pl =
     (if getP (bar gs) pl > 0 \<and> fromPoint \<noteq> Bar then []
      else case fromPoint of
        Bar \<Rightarrow>
          if getP (bar gs) pl = 0 then []
          else concat (map (\<lambda>mv.
                 let entryPoint = (if pl = 1 then mv else 25 - mv) in
                 if canMoveToPointForAI gs entryPoint pl
                 then [\<lparr>to_pt = To entryPoint, die = mv\<rparr>] else []) avail)
      | Pt f \<Rightarrow>
          if player (pointAt gs f) \<noteq> pl \<or> count (pointAt gs f) = 0 then []
          else concat (map (\<lambda>mv.
                 let toPoint = (if pl = 1 then f + mv else f - mv) in
                 if (pl = 1 \<and> toPoint \<ge> 25) \<or> (pl = 2 \<and> toPoint \<le> 0) then
                   (if canBearOffForAI gs f mv pl
                    then [\<lparr>to_pt = Bearoff, die = mv\<rparr>] else [])
                 else if toPoint \<ge> 1 \<and> toPoint \<le> 24 then
                   (if canMoveToPointForAI gs toPoint pl
                    then [\<lparr>to_pt = To toPoint, die = mv\<rparr>] else [])
                 else []) avail))"

section \<open>Move simulator\<close>

text \<open>\<^verbatim>\<open>cloneState\<close> copies every component; on values it is the identity
  except that a missing \<^verbatim>\<open>availableMoves\<close> becomes the empty list, which a
  list-typed field cannot express.  The store-level model of the copy is in the
  last section.\<close>

definition cloneState :: "game_state \<Rightarrow> game_state" where
  "cloneState gs =
     \<lparr>board = map (\<lambda>p. p) (board gs), bar = bar gs, bearoff = bearoff gs,
      currentPlayer = currentPlayer gs, availableMoves = availableMoves gs\<rparr>"

text \<open>The landing part shared by the bar-entry branch and the normal-move branch:
  a point held by the other side is cleared and that side's bar is incremented;
  then the mover's checker is added.\<close>

definition landOn :: "game_state \<Rightarrow> int \<Rightarrow> nat \<Rightarrow> game_state" where
  "landOn ns t pl =
     (let ns1 = (if player (pointAt ns t) \<noteq> 0 \<and> player (pointAt ns t) \<noteq> pl
                 then let opponent = (if pl = 1 then 2 else 1) in
                      setPoint (ns\<lparr>bar := setP (bar ns) opponent (getP (bar ns) opponent + 1)\<rparr>)
                        t \<lparr>player = 0, count = 0\<rparr>
                 else ns)
      in if player (pointAt ns1 t) = pl
         then setPoint ns1 t ((pointAt ns1 t)\<lparr>count := count (pointAt ns1 t) + 1\<rparr>)
         else setPoint ns1 t \<lparr>player = pl, count = 1\<rparr>)"

definition liftFrom :: "game_state \<Rightarrow> int \<Rightarrow> game_state" where
  "liftFrom ns f =
     (let ns1 = setPoint ns f ((pointAt ns f)\<lparr>count := count (pointAt ns f) - 1\<rparr>)
      in if count (pointAt ns1 f) = 0
         then setPoint ns1 f ((pointAt ns1 f)\<lparr>player := 0\<rparr>)
         else ns1)"

fun simulateMove :: "game_state \<Rightarrow> source \<Rightarrow> dest \<Rightarrow> int \<Rightarrow> nat \<Rightarrow> game_state" where
  "simulateMove gs Bar (To t) d pl =
     (let newState = cloneState gs;
          ns1 = newState\<lparr>bar := setP (bar newState) pl (getP (bar newState) pl - 1)\<rparr>
      in landOn ns1 t pl)"
| "simulateMove gs (Pt f) Bearoff d pl =
     (let newState = cloneState gs;
          ns1 = liftFrom newState f
      in ns1\<lparr>bearoff := setP (bearoff ns1) pl (getP (bearoff ns1) pl + 1)\<rparr>)"
| "simulateMove gs (Pt f) (To t) d pl =
     (let newState = cloneState gs
      in landOn (liftFrom newState f) t pl)"
| "simulateMove gs Bar Bearoff d pl = cloneState gs"

text \<open>The last equation is a combination the oracle never produces: the source
  takes the bar branch and then throws on \<^verbatim>\<open>board["bearoff"]\<close>.  No
  statement below depends on it.\<close>

section \<open>Move-sequence generator\<close>

text \<open>\<^verbatim>\<open>indexOf\<close> followed by \<^verbatim>\<open>splice(dieIndex, 1)\<close> removes the
  first occurrence of the die, which is \<open>remove1\<close>.  The three nested
  \<^verbatim>\<open>for\<close> loops push onto \<^verbatim>\<open>sequences\<close> in iteration order.\<close>

function generateAllMoveSequences ::
  "game_state \<Rightarrow> int list \<Rightarrow> nat \<Rightarrow> move list list" where
  "generateAllMoveSequences gs avail pl =
     (if avail = [] then [[]]
      else
        let sourcePoints =
              (if getP (bar gs) pl > 0 then [Bar]
               else map Pt (filter (occupiedBy gs pl) [1..24]));
            sequences =
              concat (map (\<lambda>source.
                concat (map (\<lambda>mv.
                  map (\<lambda>seq. \<lparr>to_pt = to_pt mv, die = die mv, from_pt = source\<rparr> # seq)
                    (generateAllMoveSequences
                       (simulateMove gs source (to_pt mv) (die mv) pl)
                       (remove1 (die mv) avail) pl))
                  (getValidMovesForAI gs source avail pl)))
                sourcePoints)
        in if sequences = [] then [[]] else sequences)"
  by pat_completeness auto
termination
proof (relation "measure (\<lambda>(gs, avail, pl). length avail)", goal_cases)
  case 1
  show ?case by simp
next
  case (2 gs avail pl sourcePoints source mv)
  have "die mv \<in> set avail"
    using 2(4)
    by (auto simp: getValidMovesForAI_def Let_def split: if_splits source.splits)
  then show ?case
    using length_pos_if_in_set [of "die mv" avail] by (simp add: length_remove1)
qed

text \<open>The states the generator passes through while it builds a sequence.\<close>

fun statesAlong :: "game_state \<Rightarrow> move list \<Rightarrow> nat \<Rightarrow> game_state list" where
  "statesAlong gs [] pl = [gs]"
| "statesAlong gs (m # ms) pl =
     gs # statesAlong (simulateMove gs (from_pt m) (to_pt m) (die m) pl) ms pl"

section \<open>Checker conservation and well-formed snapshots\<close>

definition contrib :: "point \<Rightarrow> nat \<Rightarrow> int" where
  "contrib pt pl = (if player pt = pl then count pt else 0)"

definition onBoard :: "game_state \<Rightarrow> nat \<Rightarrow> int" where
  "onBoard gs pl = sum_list (map (\<lambda>i. contrib (pointAt gs i) pl) [1..24])"

definition total :: "game_state \<Rightarrow> nat \<Rightarrow> int" where
  "total gs pl = onBoard gs pl + getP (bar gs) pl + getP (bearoff gs) pl"

definition conservation :: "game_state \<Rightarrow> bool" where
  "conservation gs = (total gs 1 = 15 \<and> total gs 2 = 15)"

text \<open>The shape every snapshot handed to the engine has: 25 array slots and
  owner tags 0, 1 or 2 on the points.\<close>

definition boardShape :: "game_state \<Rightarrow> bool" where
  "boardShape gs =
     (length (board gs) = 25 \<and> list_all (\<lambda>i. player (pointAt gs i) \<le> 2) [1..24])"

definition nonNegative :: "game_state \<Rightarrow> bool" where
  "nonNegative gs =
     (list_all (\<lambda>i. count (pointAt gs i) \<ge> 0) [1..24]
      \<and> player1 (bar gs) \<ge> 0 \<and> player2 (bar gs) \<ge> 0)"

definition validSource :: "source \<Rightarrow> bool" where
  "validSource src = (case src of Bar \<Rightarrow> True | Pt f \<Rightarrow> 1 \<le> f \<and> f \<le> 24)"

text \<open>Applying a sequence the way the generator does, and the dice left in the
  pool afterwards.\<close>

fun applyMoves :: "game_state \<Rightarrow> move list \<Rightarrow> nat \<Rightarrow> game_state" where
  "applyMoves gs [] pl = gs"
| "applyMoves gs (m # ms) pl =
     applyMoves (simulateMove gs (from_pt m) (to_pt m) (die m) pl) ms pl"

fun remainingDice :: "int list \<Rightarrow> move list \<Rightarrow> int list" where
  "remainingDice avail [] = avail"
| "remainingDice avail (m # ms) = remainingDice (remove1 (die m) avail) ms"

definition allSources :: "source list" where
  "allSources = Bar # map Pt [1..24]"

definition noLegalMove :: "game_state \<Rightarrow> int list \<Rightarrow> nat \<Rightarrow> bool" where
  "noLegalMove gs avail pl =
     list_all (\<lambda>src. getValidMovesForAI gs src avail pl = []) allSources"

text \<open>The list \<^verbatim>\<open>sourcePoints\<close> the generator builds.\<close>

definition sourcePointsOf :: "game_state \<Rightarrow> nat \<Rightarrow> source list" where
  "sourcePointsOf gs pl =
     (if getP (bar gs) pl > 0 then [Bar] else map Pt (filter (occupiedBy gs pl) [1..24]))"

section \<open>Concrete snapshots used as test inputs\<close>

definition emptyPoint :: point where
  "emptyPoint = \<lparr>player = 0, count = 0\<rparr>"

text \<open>A 25-slot board that is empty except for the listed
  \<open>(index, owner, count)\<close> entries.\<close>

definition mkBoard :: "(nat \<times> nat \<times> int) list \<Rightarrow> point list" where
  "mkBoard xs =
     fold (\<lambda>(i, pl, c) b. b[i := \<lparr>player = pl, count = c\<rparr>]) xs (replicate 25 emptyPoint)"

text \<open>The starting position as \<^verbatim>\<open>game.js\<close> sets it up.\<close>

definition openingState :: game_state where
  "openingState =
     \<lparr>board = mkBoard [(1, 1, 2), (12, 1, 5), (17, 1, 3), (19, 1, 5),
                        (24, 2, 2), (13, 2, 5), (8, 2, 3), (6, 2, 5)],
      bar = \<lparr>player1 = 0, player2 = 0\<rparr>, bearoff = \<lparr>player1 = 0, player2 = 0\<rparr>,
      currentPlayer = 2, availableMoves = [3, 1]\<rparr>"

text \<open>Player 2 has one checker on the bar and rolled 3 and 5.  Player 1 holds
  point 22 (the entry point for a 3) with two checkers and has a lone checker on
  point 20 (the entry point for a 5).\<close>

definition barState :: game_state where
  "barState =
     \<lparr>board = mkBoard [(1, 1, 2), (12, 1, 4), (17, 1, 3), (19, 1, 3), (22, 1, 2), (20, 1, 1),
                        (13, 2, 5), (8, 2, 3), (6, 2, 5), (24, 2, 1)],
      bar = \<lparr>player1 = 0, player2 = 1\<rparr>, bearoff = \<lparr>player1 = 0, player2 = 0\<rparr>,
      currentPlayer = 2, availableMoves = [3, 5]\<rparr>"

definition barEntryThenRun :: "move list" where
  "barEntryThenRun =
     [\<lparr>to_pt = To 20, die = 5, from_pt = Bar\<rparr>, \<lparr>to_pt = To 21, die = 3, from_pt = Pt 24\<rparr>]"

text \<open>As \<open>barState\<close>, but both of player 2's back checkers are on the bar.\<close>

definition twoOnBarState :: game_state where
  "twoOnBarState =
     \<lparr>board = mkBoard [(1, 1, 2), (12, 1, 4), (17, 1, 3), (19, 1, 3), (22, 1, 2), (20, 1, 1),
                        (13, 2, 5), (8, 2, 3), (6, 2, 5)],
      bar = \<lparr>player1 = 0, player2 = 2\<rparr>, bearoff = \<lparr>player1 = 0, player2 = 0\<rparr>,
      currentPlayer = 2, availableMoves = [3, 5]\<rparr>"

section \<open>Position features used by phase detection\<close>

datatype phase = RACE | CONTACT | BACKGAME | PRIMING | BLITZ

text \<open>\<^verbatim>\<open>calculatePipCount\<close>: the two branches differ in the distance only.\<close>

definition calculatePipCount :: "game_state \<Rightarrow> nat \<Rightarrow> int" where
  "calculatePipCount gs pl =
     (if pl = 1
      then sum_list (map (\<lambda>i. if player (pointAt gs i) = pl
                               then count (pointAt gs i) * (25 - i) else 0) [1..24])
      else sum_list (map (\<lambda>i. if player (pointAt gs i) = pl
                               then count (pointAt gs i) * i else 0) [1..24]))
     + getP (bar gs) pl * 25"

text \<open>\<^verbatim>\<open>evaluatePrimes\<close> returns \<^verbatim>\<open>{ length, count, score }\<close>.  The loop
  state is \<open>(maxPrimeLength, primeCount, currentPrime, gaps)\<close>.\<close>

record prime_info =
  p_length :: int
  p_count :: int
  p_score :: int

definition madePoint :: "game_state \<Rightarrow> nat \<Rightarrow> int \<Rightarrow> bool" where
  "madePoint gs pl i = (player (pointAt gs i) = pl \<and> count (pointAt gs i) \<ge> 2)"

definition primeStep ::
  "(int \<Rightarrow> bool) \<Rightarrow> int \<times> int \<times> int \<times> int \<Rightarrow> int \<Rightarrow> int \<times> int \<times> int \<times> int" where
  "primeStep made st i =
     (case st of (maxPrimeLength, primeCount, currentPrime, gaps) \<Rightarrow>
        if made i then
          (max maxPrimeLength (currentPrime + 1),
           (if currentPrime + 1 = 1 then primeCount + 1 else primeCount),
           currentPrime + 1, gaps)
        else
          (maxPrimeLength, primeCount, 0, (if currentPrime > 0 then gaps + 1 else gaps)))"

definition evaluatePrimes :: "game_state \<Rightarrow> nat \<Rightarrow> prime_info" where
  "evaluatePrimes gs pl =
     (case foldl (primeStep (madePoint gs pl)) (0, 0, 0, 0) [1..24] of
        (maxPrimeLength, primeCount, currentPrime, gaps) \<Rightarrow>
          \<lparr>p_length = maxPrimeLength, p_count = primeCount,
           p_score = maxPrimeLength * maxPrimeLength * 10 + primeCount * 5 - gaps * 2\<rparr>)"

text \<open>\<^verbatim>\<open>evaluateBlotSafety\<close> returns \<^verbatim>\<open>{ count, score }\<close>.  \<open>canBeHit\<close> is the
  value of the flag of that name when the inner loop and the bar check are done.\<close>

record blot_info =
  b_count :: int
  b_score :: int

definition canBeHit :: "game_state \<Rightarrow> nat \<Rightarrow> int \<Rightarrow> bool" where
  "canBeHit gs pl i =
     (let opponent = (if pl = 1 then 2 else 1) in
      list_ex (\<lambda>j. player (pointAt gs j) = opponent \<and> count (pointAt gs j) > 0
                  \<and> (let distance = (if pl = 1 then i - j else j - i)
                     in distance > 0 \<and> distance \<le> 6)) [1..24]
      \<or> (getP (bar gs) opponent > 0
         \<and> (let entryPoint = (if opponent = 1 then 1 else 24);
                 distance = (if pl = 1 then i - entryPoint else entryPoint - i)
             in distance \<ge> 1 \<and> distance \<le> 6)))"

definition isBlot :: "game_state \<Rightarrow> nat \<Rightarrow> int \<Rightarrow> bool" where
  "isBlot gs pl i = (player (pointAt gs i) = pl \<and> count (pointAt gs i) = 1)"

definition blotStep :: "game_state \<Rightarrow> nat \<Rightarrow> int \<times> int \<Rightarrow> int \<Rightarrow> int \<times> int" where
  "blotStep gs pl st i =
     (case st of (blotScore, vulnerableBlots) \<Rightarrow>
        if isBlot gs pl i then
          (if canBeHit gs pl i then
             (if (pl = 1 \<and> i \<le> 6) \<or> (pl = 2 \<and> i \<ge> 19)
              then (blotScore - 30, vulnerableBlots + 1)
              else (blotScore - 15, vulnerableBlots + 1))
           else (blotScore - 5, vulnerableBlots))
        else (blotScore, vulnerableBlots))"

definition evaluateBlotSafety :: "game_state \<Rightarrow> nat \<Rightarrow> blot_info" where
  "evaluateBlotSafety gs pl =
     (case foldl (blotStep gs pl) (0, 0) [1..24] of
        (blotScore, vulnerableBlots) \<Rightarrow> \<lparr>b_count = vulnerableBlots, b_score = blotScore\<rparr>)"

section \<open>Phase detection\<close>

definition isPrimingOrBlitzing :: "game_state \<Rightarrow> nat \<Rightarrow> phase" where
  "isPrimingOrBlitzing gs pl =
     (let opponent = (if pl = 1 then 2 else 1);
          primes = evaluatePrimes gs pl;
          ownBlots = evaluateBlotSafety gs pl;
          opponentOnBar = getP (bar gs) opponent;
          ownVulnerableBlots = b_count ownBlots
      in if opponentOnBar \<ge> 1 \<and> p_count primes \<ge> 1 \<and> ownVulnerableBlots \<le> 2 then BLITZ
         else if p_length primes \<ge> 3 \<and> p_count primes \<ge> 2 then PRIMING
         else CONTACT)"

text \<open>\<^verbatim>\<open>detectGamePhase\<close> also computes the anchors and blot safety of both
  sides into locals that it never reads; they are left out.\<close>

definition detectGamePhase :: "game_state \<Rightarrow> phase" where
  "detectGamePhase gs =
     (let player2Primes = evaluatePrimes gs 2;
          player1Primes = evaluatePrimes gs 1;
          player1InHome = allCheckersInHomeBoardForAI gs 1;
          player2InHome = allCheckersInHomeBoardForAI gs 2;
          player1Pips = calculatePipCount gs 1;
          player2Pips = calculatePipCount gs 2;
          pipDiff = \<bar>player1Pips - player2Pips\<bar>;
          isBlitzingByAI = (isPrimingOrBlitzing gs 2 = BLITZ)
      in if player1InHome \<and> player2InHome then RACE
         else if pipDiff > 30 then BACKGAME
         else if p_count player2Primes \<ge> 1 \<and> p_count player1Primes \<ge> 1
                 \<and> p_length player2Primes \<ge> 3 \<and> p_length player1Primes \<ge> 3 then PRIMING
         else if isBlitzingByAI then BLITZ
         else CONTACT)"

section \<open>The specification's wording of the bear-off rule and of the phases\<close>

text \<open>The mover's home board is the six points next to its exit: 19..24 for
  player 1 (who moves upwards and leaves at 25), 1..6 for player 2.\<close>

definition homePoints :: "nat \<Rightarrow> int list" where
  "homePoints pl = (if pl = 1 then [19..24] else [1..6])"

definition homeCount :: "game_state \<Rightarrow> nat \<Rightarrow> int" where
  "homeCount gs pl = sum_list (map (\<lambda>i. contrib (pointAt gs i) pl) (homePoints pl))"

text \<open>The points further from the mover's home than \<open>src\<close>.\<close>

definition pointsBehind :: "nat \<Rightarrow> int \<Rightarrow> int list" where
  "pointsBehind pl src = (if pl = 1 then [1..src - 1] else [src + 1..24])"

text \<open>All 15 checkers of the mover are accounted for by its home board and its
  tray and none is on the bar; and the die reaches the exit exactly, or it
  overshoots and no checker of the mover stands behind the source.\<close>

definition bearOffLegal :: "game_state \<Rightarrow> int \<Rightarrow> int \<Rightarrow> nat \<Rightarrow> bool" where
  "bearOffLegal gs src d pl =
     ((homeCount gs pl + getP (bearoff gs) pl = 15 \<and> getP (bar gs) pl = 0)
      \<and> (let dst = (if pl = 1 then src + d else src - d);
              exact = (if pl = 1 then dst = 25 else dst = 0);
              overshoot = (if pl = 1 then dst > 25 else dst < 0)
          in exact \<or> (overshoot \<and> \<not> list_ex (occupiedBy gs pl) (pointsBehind pl src))))"

text \<open>A run of \<open>k\<close> consecutive made points of a side somewhere on the board.\<close>

definition hasRun :: "game_state \<Rightarrow> nat \<Rightarrow> int \<Rightarrow> bool" where
  "hasRun gs pl k =
     list_ex (\<lambda>i. list_all (madePoint gs pl) [i..i + k - 1]) [1..24 - k + 1]"

text \<open>The specification's vulnerable blot: a lone checker that some checker of the
  other side can reach within one die roll, that is from 1 to 6 pips away in that
  side's direction of travel, the bar included.  Player 1 travels upwards and its
  bar lies before point 1 (position 0); player 2 travels downwards and its bar
  lies before point 24 (position 25).  This is independent of \<open>canBeHit\<close>.\<close>

definition pipsTo :: "nat \<Rightarrow> int \<Rightarrow> int \<Rightarrow> int" where
  "pipsTo mover src dst = (if mover = 1 then dst - src else src - dst)"

definition barPosition :: "nat \<Rightarrow> int" where
  "barPosition mover = (if mover = 1 then 0 else 25)"

definition withinOneRoll :: "game_state \<Rightarrow> nat \<Rightarrow> int \<Rightarrow> bool" where
  "withinOneRoll gs pl i =
     (let opponent = (if pl = 1 then 2 else 1) in
      list_ex (\<lambda>j. occupiedBy gs opponent j
                  \<and> 1 \<le> pipsTo opponent j i \<and> pipsTo opponent j i \<le> 6) [1..24]
      \<or> (getP (bar gs) opponent > 0
         \<and> 1 \<le> pipsTo opponent (barPosition opponent) i
         \<and> pipsTo opponent (barPosition opponent) i \<le> 6))"

definition vulnerableBlots :: "game_state \<Rightarrow> nat \<Rightarrow> int list" where
  "vulnerableBlots gs pl = filter (\<lambda>i. isBlot gs pl i \<and> withinOneRoll gs pl i) [1..24]"

text \<open>The five phases in the specification's priority order; the evaluating side
  is player 2.\<close>

definition phaseBySpec :: "game_state \<Rightarrow> phase" where
  "phaseBySpec gs =
     (if allCheckersInHomeBoardForAI gs 1 \<and> allCheckersInHomeBoardForAI gs 2 then RACE
      else if \<bar>calculatePipCount gs 1 - calculatePipCount gs 2\<bar> > 30 then BACKGAME
      else if hasRun gs 1 3 \<and> hasRun gs 2 3 then PRIMING
      else if player1 (bar gs) \<ge> 1 \<and> hasRun gs 2 1
              \<and> int (length (vulnerableBlots gs 2)) \<le> 2 then BLITZ
      else CONTACT)"

text \<open>Player 1 has a checker on the bar and none on the points 3..10.  Player 2
  holds the points 6, 8 and 13 and has lone checkers on 2, 3 and 4, each of which
  player 1 hits when it enters from the bar with that number.\<close>

definition blitzState :: game_state where
  "blitzState =
     \<lparr>board = mkBoard [(2, 2, 1), (3, 2, 1), (4, 2, 1), (6, 2, 4), (8, 2, 3), (13, 2, 5),
                        (12, 1, 2), (17, 1, 4), (19, 1, 5), (21, 1, 3)],
      bar = \<lparr>player1 = 1, player2 = 0\<rparr>, bearoff = \<lparr>player1 = 0, player2 = 0\<rparr>,
      currentPlayer = 1, availableMoves = [3, 2]\<rparr>"

text \<open>The points outside the mover's home board.\<close>

definition outsidePoints :: "nat \<Rightarrow> int list" where
  "outsidePoints pl = (if pl = 1 then [1..18] else [7..24])"

text \<open>Whether point \<open>i\<close> lies in the home board of the other side.\<close>

definition inOpponentHome :: "nat \<Rightarrow> int \<Rightarrow> bool" where
  "inOpponentHome pl i = (i \<in> set (homePoints (if pl = 1 then 2 else 1)))"

text \<open>Player 2 is borne off down to points 1..3: two checkers on 3, three on 2,
  two on 1, eight in the tray.\<close>

definition bearOffState :: game_state where
  "bearOffState =
     \<lparr>board = mkBoard [(3, 2, 2), (2, 2, 3), (1, 2, 2), (19, 1, 5), (20, 1, 5), (21, 1, 5)],
      bar = \<lparr>player1 = 0, player2 = 0\<rparr>, bearoff = \<lparr>player1 = 0, player2 = 8\<rparr>,
      currentPlayer = 2, availableMoves = [6]\<rparr>"

text \<open>Player 2 has two lone checkers: one on point 3, inside its own home board,
  and one on point 20, inside player 1's.  Player 1 has checkers on both sides of
  each of them.\<close>

definition twoBlotsState :: game_state where
  "twoBlotsState =
     \<lparr>board = mkBoard [(3, 2, 1), (20, 2, 1), (6, 2, 5), (8, 2, 3), (13, 2, 5),
                        (1, 1, 2), (5, 1, 2), (12, 1, 4), (17, 1, 3), (19, 1, 2), (22, 1, 2)],
      bar = \<lparr>player1 = 0, player2 = 0\<rparr>, bearoff = \<lparr>player1 = 0, player2 = 0\<rparr>,
      currentPlayer = 1, availableMoves = [2, 1]\<rparr>"

text \<open>Player 1 has a lone checker on point 10; the only player-2 checkers within
  six pips of it stand on point 12, from where a 2 hits it.\<close>

definition directShotState :: game_state where
  "directShotState =
     \<lparr>board = mkBoard [(10, 1, 1), (17, 1, 4), (19, 1, 5), (21, 1, 5),
                        (12, 2, 2), (3, 2, 5), (2, 2, 5), (1, 2, 3)],
      bar = \<lparr>player1 = 0, player2 = 0\<rparr>, bearoff = \<lparr>player1 = 0, player2 = 0\<rparr>,
      currentPlayer = 2, availableMoves = [2]\<rparr>"

section \<open>Applying a whole sequence; strategic filters\<close>

definition PLAYER1_HOME_START_POINT :: int where
  "PLAYER1_HOME_START_POINT = 1"

definition PLAYER1_HOME_END_POINT :: int where
  "PLAYER1_HOME_END_POINT = 6"

definition HIGH_PRIORITY_HIT_BONUS :: int where
  "HIGH_PRIORITY_HIT_BONUS = 20000"

definition isHighPriorityHit :: "game_state \<Rightarrow> move \<Rightarrow> nat \<Rightarrow> bool" where
  "isHighPriorityHit gs mv pl =
     (if pl \<noteq> 2 then False
      else case to_pt mv of
        Bearoff \<Rightarrow> False
      | To t \<Rightarrow>
          if t < 1 \<or> t > 24 then False
          else if t \<ge> PLAYER1_HOME_START_POINT \<and> t \<le> PLAYER1_HOME_END_POINT then False
          else player (pointAt gs t) = 1 \<and> count (pointAt gs t) = 1)"

text \<open>One round of the loop of \<^verbatim>\<open>applySequenceAndScore\<close>; the loop state is
  \<open>(currentState, hitPriorityScore)\<close>, which is also what the function returns.\<close>

definition applyStep :: "nat \<Rightarrow> game_state \<times> int \<Rightarrow> move \<Rightarrow> game_state \<times> int" where
  "applyStep pl st mv =
     (case st of (currentState, hitPriorityScore) \<Rightarrow>
        let hitPriorityScore' =
              (if isHighPriorityHit currentState mv pl
               then hitPriorityScore + HIGH_PRIORITY_HIT_BONUS else hitPriorityScore);
            moved = simulateMove currentState (from_pt mv) (to_pt mv) (die mv) pl;
            newAvailableMoves = remove1 (die mv) (availableMoves moved)
        in (moved\<lparr>availableMoves := newAvailableMoves\<rparr>, hitPriorityScore'))"

definition applySequenceAndScore :: "game_state \<Rightarrow> move list \<Rightarrow> nat \<Rightarrow> game_state \<times> int" where
  "applySequenceAndScore gs sequence pl = foldl (applyStep pl) (cloneState gs, 0) sequence"

definition hasPlayer2BlotInPlayer1Home :: "game_state \<Rightarrow> bool" where
  "hasPlayer2BlotInPlayer1Home gs =
     list_ex (\<lambda>pnt. player (pointAt gs pnt) = 2 \<and> count (pointAt gs pnt) = 1)
       [PLAYER1_HOME_START_POINT..PLAYER1_HOME_END_POINT]"

definition sequenceLeavesPlayer2HomeBoardBlot :: "game_state \<Rightarrow> move list \<Rightarrow> nat \<Rightarrow> bool" where
  "sequenceLeavesPlayer2HomeBoardBlot gs sequence pl =
     (if pl \<noteq> 2 \<or> sequence = [] then False
      else hasPlayer2BlotInPlayer1Home (fst (applySequenceAndScore gs sequence pl)))"

definition enforcePlayer2HomeBoardSafety ::
  "game_state \<Rightarrow> move list list \<Rightarrow> nat \<Rightarrow> move list list" where
  "enforcePlayer2HomeBoardSafety gs orderedSequences pl =
     (if pl \<noteq> 2 then orderedSequences
      else let safeSequences =
                 filter (\<lambda>sequence. \<not> sequenceLeavesPlayer2HomeBoardBlot gs sequence pl)
                   orderedSequences
           in if length safeSequences > 0 then safeSequences else orderedSequences)"

definition sequenceExceedsStackLimit :: "game_state \<Rightarrow> move list \<Rightarrow> nat \<Rightarrow> bool" where
  "sequenceExceedsStackLimit gs sequence pl =
     (if pl \<noteq> 2 \<or> sequence = [] then False
      else let state = fst (applySequenceAndScore gs sequence pl) in
        if player (pointAt state 2) = 2 \<and> count (pointAt state 2) > 3 then True
        else if player (pointAt state 1) = 2 \<and> count (pointAt state 1) > 3 then True
        else False)"

definition enforceStackLimitOnPoints2And1 ::
  "game_state \<Rightarrow> move list list \<Rightarrow> nat \<Rightarrow> move list list" where
  "enforceStackLimitOnPoints2And1 gs orderedSequences pl =
     (if pl \<noteq> 2 then orderedSequences
      else let validSequences =
                 filter (\<lambda>sequence. \<not> sequenceExceedsStackLimit gs sequence pl) orderedSequences
           in if length validSequences > 0 then validSequences else orderedSequences)"

definition countMadePointsInHomeBoard :: "game_state \<Rightarrow> nat \<Rightarrow> int" where
  "countMadePointsInHomeBoard gs pl =
     (if pl \<noteq> 2 then 0
      else int (length (filter (\<lambda>i. player (pointAt gs i) = 2 \<and> count (pointAt gs i) \<ge> 2)
                          [1..6])))"

definition sequenceUsesCheckersOutsideHomeBoard :: "move list \<Rightarrow> nat \<Rightarrow> bool" where
  "sequenceUsesCheckersOutsideHomeBoard sequence pl =
     (if pl \<noteq> 2 \<or> sequence = [] then False
      else list_ex (\<lambda>mv. case from_pt mv of Bar \<Rightarrow> True | Pt f \<Rightarrow> f \<ge> 7 \<and> f \<le> 24) sequence)"

definition sequenceExceedsDistributionLimit :: "game_state \<Rightarrow> move list \<Rightarrow> nat \<Rightarrow> bool" where
  "sequenceExceedsDistributionLimit gs sequence pl =
     (if pl \<noteq> 2 \<or> sequence = [] then False
      else let state = fst (applySequenceAndScore gs sequence pl) in
        list_ex (\<lambda>i. player (pointAt state i) = 2 \<and> count (pointAt state i) > 4) [1..24])"

definition enforceDistribution ::
  "game_state \<Rightarrow> move list list \<Rightarrow> nat \<Rightarrow> move list list" where
  "enforceDistribution gs orderedSequences pl =
     (if pl \<noteq> 2 then orderedSequences
      else let validSequences =
                 filter (\<lambda>sequence. \<not> sequenceExceedsDistributionLimit gs sequence pl)
                   orderedSequences
           in if length validSequences > 0 then validSequences else orderedSequences)"

definition enforcePlayCheckersOutsideHomeBoard ::
  "game_state \<Rightarrow> move list list \<Rightarrow> nat \<Rightarrow> move list list" where
  "enforcePlayCheckersOutsideHomeBoard gs orderedSequences pl =
     (if pl \<noteq> 2 then orderedSequences
      else let madePoints = countMadePointsInHomeBoard gs pl in
        if madePoints > 2 then
          (let validSequences =
                 filter (\<lambda>sequence. sequenceUsesCheckersOutsideHomeBoard sequence pl)
                   orderedSequences
           in if length validSequences > 0 then validSequences else orderedSequences)
        else orderedSequences)"

text \<open>The nesting in which \<^verbatim>\<open>getBestMove\<close> and \<^verbatim>\<open>evaluateWithLookahead\<close>
  call the four filters.\<close>

definition safeSequencesOf :: "game_state \<Rightarrow> move list list \<Rightarrow> nat \<Rightarrow> move list list" where
  "safeSequencesOf gs orderedSequences pl =
     enforcePlayCheckersOutsideHomeBoard gs
       (enforceDistribution gs
          (enforceStackLimitOnPoints2And1 gs
             (enforcePlayer2HomeBoardSafety gs orderedSequences pl) pl) pl) pl"

text \<open>The specification's filter: drop the candidates that violate a constraint,
  unless every candidate violates it, in which case the constraint is waived.\<close>

definition waivableFilter :: "('a \<Rightarrow> bool) \<Rightarrow> 'a list \<Rightarrow> 'a list" where
  "waivableFilter violates xs =
     (if list_all violates xs then xs else filter (\<lambda>x. \<not> violates x) xs)"

text \<open>The play-from-outside-home constraint is violated by a sequence that moves
  no checker from outside the home board although more than two home points are
  made.\<close>

definition staysInsideHome :: "game_state \<Rightarrow> nat \<Rightarrow> move list \<Rightarrow> bool" where
  "staysInsideHome gs pl sequence =
     (countMadePointsInHomeBoard gs pl > 2
      \<and> \<not> sequenceUsesCheckersOutsideHomeBoard sequence pl)"

text \<open>Each filter with the constraint it enforces.\<close>

definition strategicFilters ::
  "((game_state \<Rightarrow> move list list \<Rightarrow> nat \<Rightarrow> move list list)
    \<times> (game_state \<Rightarrow> nat \<Rightarrow> move list \<Rightarrow> bool)) list" where
  "strategicFilters =
     [(enforcePlayer2HomeBoardSafety, \<lambda>gs pl s. sequenceLeavesPlayer2HomeBoardBlot gs s pl),
      (enforceStackLimitOnPoints2And1, \<lambda>gs pl s. sequenceExceedsStackLimit gs s pl),
      (enforceDistribution, \<lambda>gs pl s. sequenceExceedsDistributionLimit gs s pl),
      (enforcePlayCheckersOutsideHomeBoard, staysInsideHome)]"

text \<open>Player 2 has its points 1..3 made and a last checker on point 8; the dice
  are 2 and 1.\<close>

definition crowdedHomeState :: game_state where
  "crowdedHomeState =
     \<lparr>board = mkBoard [(1, 2, 4), (2, 2, 4), (3, 2, 4), (5, 2, 2), (8, 2, 1),
                        (19, 1, 5), (20, 1, 5), (21, 1, 5)],
      bar = \<lparr>player1 = 0, player2 = 0\<rparr>, bearoff = \<lparr>player1 = 0, player2 = 0\<rparr>,
      currentPlayer = 2, availableMoves = [2, 1]\<rparr>"

text \<open>Both dice played onto point 1, which then holds six checkers.\<close>

definition stackingSequence :: "move list" where
  "stackingSequence =
     [\<lparr>to_pt = To 1, die = 1, from_pt = Pt 2\<rparr>, \<lparr>to_pt = To 1, die = 2, from_pt = Pt 3\<rparr>]"

section \<open>Position evaluator\<close>

text \<open>Scores are JavaScript numbers.  The evaluator multiplies by fractional
  weights and divides, so they are modelled as \<open>real\<close>: exact arithmetic in place
  of IEEE doubles.  Nothing proved below depends on a particular value of a
  fractional score.\<close>

definition calculateRaceCount :: "game_state \<Rightarrow> nat \<Rightarrow> int" where
  "calculateRaceCount gs pl =
     (let playerPips = calculatePipCount gs pl;
          opponent = (if pl = 1 then 2 else 1);
          opponentPips = calculatePipCount gs opponent
      in opponentPips - playerPips)"

text \<open>\<^verbatim>\<open>calculateDistribution\<close>; loop state \<open>(occupiedPoints, gaps, lastOccupied)\<close>.\<close>

definition distStep :: "game_state \<Rightarrow> nat \<Rightarrow> int \<times> int \<times> int \<Rightarrow> int \<Rightarrow> int \<times> int \<times> int" where
  "distStep gs pl st i =
     (case st of (occupiedPoints, gaps, lastOccupied) \<Rightarrow>
        if player (pointAt gs i) = pl \<and> count (pointAt gs i) > 0 then
          (occupiedPoints + 1,
           (if lastOccupied \<noteq> - 1 \<and> i - lastOccupied > 1
            then gaps + (i - lastOccupied - 1) else gaps),
           i)
        else st)"

definition calculateDistribution :: "game_state \<Rightarrow> nat \<Rightarrow> int" where
  "calculateDistribution gs pl =
     (case foldl (distStep gs pl) (0, 0, - 1) [1..24] of
        (occupiedPoints, gaps, lastOccupied) \<Rightarrow> occupiedPoints * 2 - gaps)"

definition hasNoContactOnPlayer2Side :: "game_state \<Rightarrow> bool" where
  "hasNoContactOnPlayer2Side gs =
     (if list_ex (\<lambda>i. player (pointAt gs i) = 1 \<and> count (pointAt gs i) > 0) [1..12] then False
      else if player1 (bar gs) > 0 then False
      else True)"

text \<open>\<^verbatim>\<open>evaluateAnchors\<close> returns \<^verbatim>\<open>{ count, score, positions }\<close>; the loop
  state is \<open>(anchorScore, anchorCount, anchorPositions)\<close>.\<close>

record anchor_info =
  a_count :: int
  a_score :: int
  a_positions :: "int list"

definition anchorStep ::
  "game_state \<Rightarrow> nat \<Rightarrow> int \<times> int \<times> int list \<Rightarrow> int \<Rightarrow> int \<times> int \<times> int list" where
  "anchorStep gs pl st i =
     (case st of (anchorScore, anchorCount, anchorPositions) \<Rightarrow>
        if player (pointAt gs i) = pl \<and> count (pointAt gs i) \<ge> 2 then
          (anchorScore + (if pl = 1 then 7 - i else i - 18) * 5 + count (pointAt gs i) * 2,
           anchorCount + 1, anchorPositions @ [i])
        else st)"

definition evaluateAnchors :: "game_state \<Rightarrow> nat \<Rightarrow> anchor_info" where
  "evaluateAnchors gs pl =
     (case foldl (anchorStep gs pl) (0, 0, []) (if pl = 1 then [1..6] else [19..24]) of
        (anchorScore, anchorCount, anchorPositions) \<Rightarrow>
          \<lparr>a_count = anchorCount, a_score = anchorScore, a_positions = anchorPositions\<rparr>)"

definition KEY_POINT_PRIORITIES :: "(int \<times> real) list" where
  "KEY_POINT_PRIORITIES =
     [(5, 1.0), (20, 0.9), (4, 0.7), (21, 0.65), (7, 0.6), (18, 0.55)]"

definition KEY_POINT_STACK_BONUS :: real where "KEY_POINT_STACK_BONUS = 1200"
definition KEY_POINT_SINGLE_BONUS :: real where "KEY_POINT_SINGLE_BONUS = 450"
definition KEY_POINT_OPPONENT_BLOCK_PENALTY :: real where "KEY_POINT_OPPONENT_BLOCK_PENALTY = 1400"
definition KEY_POINT_OPPONENT_BLOT_PENALTY :: real where "KEY_POINT_OPPONENT_BLOT_PENALTY = 700"
definition NO_CONTACT_HOME_BOARD_BONUS :: real where "NO_CONTACT_HOME_BOARD_BONUS = 5000"

definition keyPointStep :: "game_state \<Rightarrow> real \<Rightarrow> int \<times> real \<Rightarrow> real" where
  "keyPointStep gs score preference =
     (case preference of (pnt, weight) \<Rightarrow>
        let pointState = pointAt gs pnt in
        if player pointState = 2 then
          (if count pointState \<ge> 2 then score + KEY_POINT_STACK_BONUS * weight
           else if count pointState = 1 then score + KEY_POINT_SINGLE_BONUS * weight
           else score)
        else if player pointState = 1 then
          (if count pointState \<ge> 2 then score - KEY_POINT_OPPONENT_BLOCK_PENALTY * weight
           else if count pointState = 1 then score - KEY_POINT_OPPONENT_BLOT_PENALTY * weight
           else score)
        else score)"

definition evaluateKeyPointControl :: "game_state \<Rightarrow> real" where
  "evaluateKeyPointControl gs = foldl (keyPointStep gs) 0 KEY_POINT_PRIORITIES"

text \<open>\<^verbatim>\<open>evaluateHomeBoardStructure\<close>; loop state
  \<open>(structureScore, madePoints, gaps, lastPoint)\<close>.\<close>

definition homeStep ::
  "game_state \<Rightarrow> nat \<Rightarrow> int \<times> int \<times> int \<times> int \<Rightarrow> int \<Rightarrow> int \<times> int \<times> int \<times> int" where
  "homeStep gs pl st i =
     (case st of (structureScore, madePoints, gaps, lastPoint) \<Rightarrow>
        if player (pointAt gs i) = pl \<and> count (pointAt gs i) \<ge> 2 then
          (structureScore + (if pl = 1 then i - 18 else 7 - i) * 3,
           madePoints + 1,
           (if lastPoint \<noteq> - 1 \<and> i - lastPoint > 1 then gaps + (i - lastPoint - 1) else gaps),
           i)
        else st)"

definition evaluateHomeBoardStructure :: "game_state \<Rightarrow> nat \<Rightarrow> int" where
  "evaluateHomeBoardStructure gs pl =
     (case foldl (homeStep gs pl) (0, 0, 0, - 1) (if pl = 1 then [19..24] else [1..6]) of
        (structureScore, madePoints, gaps, lastPoint) \<Rightarrow>
          structureScore + madePoints * 5 - gaps * 3)"

text \<open>\<^verbatim>\<open>evaluateCrunching\<close>; the counting loop has the state
  \<open>(totalCheckersOnBoard, occupiedPoints, maxStack, homeBoardCheckers,
  highPointCheckers, consecutiveFullPoints)\<close>.\<close>

definition crunchStep ::
  "game_state \<Rightarrow> nat \<Rightarrow> int \<times> int \<times> int \<times> int \<times> int \<times> int \<Rightarrow> int
   \<Rightarrow> int \<times> int \<times> int \<times> int \<times> int \<times> int" where
  "crunchStep gs pl st i =
     (case st of (totalCheckersOnBoard, occupiedPoints, maxStack, homeBoardCheckers,
                  highPointCheckers, consecutiveFullPoints) \<Rightarrow>
        if player (pointAt gs i) = pl \<and> count (pointAt gs i) > 0 then
          (let c = count (pointAt gs i);
               inHome = (if pl = 1 then i \<ge> 19 \<and> i \<le> 24 else i \<ge> 1 \<and> i \<le> 6);
               high = (if pl = 1 then i \<le> 21 else i \<ge> 4)
           in (totalCheckersOnBoard + c, occupiedPoints + 1, max maxStack c,
               (if inHome then homeBoardCheckers + c else homeBoardCheckers),
               (if inHome \<and> high then highPointCheckers + c else highPointCheckers),
               (if inHome \<and> c \<ge> 4 then consecutiveFullPoints + 1 else consecutiveFullPoints)))
        else st)"

definition evaluateCrunching :: "game_state \<Rightarrow> nat \<Rightarrow> real" where
  "evaluateCrunching gs pl =
     (case foldl (crunchStep gs pl) (0, 0, 0, 0, 0, 0) [1..24] of
        (totalCheckersOnBoard, occupiedPoints, maxStack, homeBoardCheckers,
         highPointCheckers, consecutiveFullPoints) \<Rightarrow>
        if allCheckersInHomeBoardForAI gs pl then
          (let averageCheckersPerPoint =
                 real_of_int homeBoardCheckers / real_of_int (max occupiedPoints 1);
               s1 = (if averageCheckersPerPoint > 2.0
                     then 0 - (averageCheckersPerPoint - 2.0)\<^sup>2 * 40 else 0);
               s2 = (if maxStack \<ge> 4 then s1 - (real_of_int (maxStack - 3))\<^sup>2 * 30 else s1);
               s3 = s2 - real_of_int highPointCheckers * 8;
               s4 = (if homeBoardCheckers > 0 \<and> occupiedPoints < 5 then
                       (let concentrationRatio =
                              real_of_int homeBoardCheckers / real_of_int occupiedPoints
                        in if concentrationRatio > 2.5
                           then s3 - (concentrationRatio - 2.5)\<^sup>2 * 50 else s3)
                     else s3)
           in if consecutiveFullPoints > 0
              then s4 - real_of_int consecutiveFullPoints * 25 else s4)
        else
          (let s1 = (if maxStack \<ge> 5 then 0 - (real_of_int (maxStack - 4))\<^sup>2 * 20 else 0)
           in if totalCheckersOnBoard > 0 \<and> occupiedPoints < 7 then
                (let concentrationRatio =
                       real_of_int totalCheckersOnBoard / real_of_int occupiedPoints
                 in if concentrationRatio > 3.5
                    then s1 - (concentrationRatio - 3.5) * 15 else s1)
              else s1))"

text \<open>\<^verbatim>\<open>calculateDynamicPipWeight\<close>.  Both \<^verbatim>\<open>reduce\<close> calls run over
  \<^verbatim>\<open>[...Array(7)]\<close>, that is over the points 1..7.\<close>

definition calculateDynamicPipWeight :: "game_state \<Rightarrow> real \<Rightarrow> phase \<Rightarrow> real" where
  "calculateDynamicPipWeight gs baseWeight ph =
     (let playerPips = calculatePipCount gs 2;
          opponentPips = calculatePipCount gs 1;
          pipDifference = opponentPips - playerPips;
          playerHomeCheckers =
            player2 (bearoff gs)
            + foldl (\<lambda>s p. s + (if player (pointAt gs p) = 2 then count (pointAt gs p) else 0))
                0 [1..7];
          opponentHomeCheckers =
            player1 (bearoff gs)
            + foldl (\<lambda>s p. s + (if player (pointAt gs p) = 1 then count (pointAt gs p) else 0))
                0 [1..7]
      in if opponentHomeCheckers \<ge> 10 then baseWeight * 2.5
         else if pipDifference > 40 then baseWeight * 2.0
         else if pipDifference < - 50 \<and> ph \<noteq> RACE then baseWeight * 0.4
         else if pipDifference < - 20 \<and> pipDifference \<ge> - 50 then baseWeight * 1.3
         else if playerHomeCheckers \<ge> 8 \<and> opponentHomeCheckers \<ge> 8 then baseWeight * 1.8
         else baseWeight)"

text \<open>The ten weights that \<^verbatim>\<open>evaluatePosition\<close> assigns per phase.\<close>

record weights =
  pipWeight :: real
  bearoffWeight :: real
  barWeight :: real
  homeWeight :: real
  blotWeight :: real
  primeWeight :: real
  anchorWeight :: real
  distributionWeight :: real
  raceWeight :: real
  crunchWeight :: real

definition phaseWeights :: "game_state \<Rightarrow> phase \<Rightarrow> weights" where
  "phaseWeights gs ph =
     (if ph = RACE then
        \<lparr>pipWeight = calculateDynamicPipWeight gs 0.5 ph, bearoffWeight = 100, barWeight = 200,
         homeWeight = 3, blotWeight = 10, primeWeight = 2, anchorWeight = 1,
         distributionWeight = 10, raceWeight = 2, crunchWeight = 200\<rparr>
      else if ph = BACKGAME then
        \<lparr>pipWeight = calculateDynamicPipWeight gs 0.2 ph, bearoffWeight = 50, barWeight = 150,
         homeWeight = 5, blotWeight = 15, primeWeight = 15, anchorWeight = 20,
         distributionWeight = 9, raceWeight = 0.5, crunchWeight = 180\<rparr>
      else if ph = BLITZ then
        \<lparr>pipWeight = calculateDynamicPipWeight gs 0.1 ph, bearoffWeight = 40, barWeight = 250,
         homeWeight = 6, blotWeight = 35, primeWeight = 25, anchorWeight = 10,
         distributionWeight = 8, raceWeight = 0.5, crunchWeight = 150\<rparr>
      else if ph = PRIMING then
        \<lparr>pipWeight = calculateDynamicPipWeight gs 0.2 ph, bearoffWeight = 30, barWeight = 100,
         homeWeight = 5, blotWeight = 10, primeWeight = 40, anchorWeight = 25,
         distributionWeight = 8, raceWeight = 0.3, crunchWeight = 160\<rparr>
      else
        \<lparr>pipWeight = calculateDynamicPipWeight gs 0.3 ph, bearoffWeight = 60, barWeight = 120,
         homeWeight = 8, blotWeight = 20, primeWeight = 12, anchorWeight = 15,
         distributionWeight = 10, raceWeight = 1, crunchWeight = 200\<rparr>)"

text \<open>The score \<^verbatim>\<open>evaluatePosition\<close> computes when the position is not in the
  cache: the two terminal shortcuts, then the twelve weighted terms.\<close>

definition positionScore :: "game_state \<Rightarrow> real" where
  "positionScore gs =
     (if player2 (bearoff gs) = 15 then 100000
      else if player1 (bearoff gs) = 15 then - 100000
      else
        let ph = detectGamePhase gs;
            w = phaseWeights gs ph;
            playerPips = calculatePipCount gs 2;
            opponentPips = calculatePipCount gs 1;
            t1 = real_of_int (opponentPips - playerPips) * pipWeight w;
            t2 = (if ph = RACE then real_of_int (calculateRaceCount gs 2) * raceWeight w else 0);
            t3 = real_of_int (player2 (bearoff gs)) * bearoffWeight w
                 - real_of_int (player1 (bearoff gs)) * bearoffWeight w;
            t4 = real_of_int (player1 (bar gs)) * barWeight w
                 - real_of_int (player2 (bar gs)) * barWeight w;
            t5 = real_of_int (evaluateHomeBoardStructure gs 2 - evaluateHomeBoardStructure gs 1)
                 * homeWeight w;
            t6 = real_of_int (b_score (evaluateBlotSafety gs 2) - b_score (evaluateBlotSafety gs 1))
                 * blotWeight w;
            t7 = real_of_int (p_score (evaluatePrimes gs 2) - p_score (evaluatePrimes gs 1))
                 * primeWeight w;
            t8 = real_of_int (a_score (evaluateAnchors gs 2) - a_score (evaluateAnchors gs 1))
                 * anchorWeight w;
            t9 = real_of_int (calculateDistribution gs 2 - calculateDistribution gs 1)
                 * distributionWeight w;
            t10 = (evaluateCrunching gs 2 - evaluateCrunching gs 1) * crunchWeight w;
            t11 = evaluateKeyPointControl gs;
            t12 = (if hasNoContactOnPlayer2Side gs then
                     (let homeBoardCheckers =
                            foldl (\<lambda>s i. if player (pointAt gs i) = 2 \<and> count (pointAt gs i) > 0
                                          then s + count (pointAt gs i) else s) 0 [1..6]
                      in real_of_int homeBoardCheckers * (NO_CONTACT_HOME_BOARD_BONUS / 15))
                   else 0)
        in t1 + t2 + t3 + t4 + t5 + t6 + t7 + t8 + t9 + t10 + t11 + t12)"

section \<open>Transposition cache\<close>

text \<open>\<^verbatim>\<open>hashPosition\<close> concatenates the decimal renderings of the numbers, each
  followed by a dash, the last one bare.\<close>

definition digitChar :: "nat \<Rightarrow> char" where
  "digitChar d = ''0123456789'' ! d"

fun showNat :: "nat \<Rightarrow> string" where
  "showNat n = (if n < 10 then [digitChar n] else showNat (n div 10) @ [digitChar (n mod 10)])"

definition showInt :: "int \<Rightarrow> string" where
  "showInt i = (if i < 0 then CHR ''-'' # showNat (nat (- i)) else showNat (nat i))"

definition hashPosition :: "game_state \<Rightarrow> string" where
  "hashPosition gs =
     concat (map (\<lambda>i. showNat (player (pointAt gs i)) @ ''-''
                      @ showInt (count (pointAt gs i)) @ ''-'') [1..24])
     @ showInt (player1 (bar gs)) @ ''-'' @ showInt (player2 (bar gs)) @ ''-''
     @ showInt (player1 (bearoff gs)) @ ''-'' @ showInt (player2 (bearoff gs))"

text \<open>The cache is a JavaScript \<^verbatim>\<open>Map\<close>: keys are unique and iterate in insertion
  order.  It is an association list, oldest entry first.  \<open>cacheSet\<close> is
  \<^verbatim>\<open>Map.prototype.set\<close>: an existing key keeps its place.  The two counters
  \<^verbatim>\<open>cacheHits\<close> and \<^verbatim>\<open>cacheMisses\<close> are written and never read; they are
  left out.\<close>

type_synonym cache = "(string \<times> real) list"

definition CACHE_SIZE :: nat where
  "CACHE_SIZE = 2000"

definition cacheSet :: "cache \<Rightarrow> string \<Rightarrow> real \<Rightarrow> cache" where
  "cacheSet c k v =
     (if map_of c k \<noteq> None then map (\<lambda>(k', v'). if k' = k then (k', v) else (k', v')) c
      else c @ [(k, v)])"

definition cacheDelete :: "cache \<Rightarrow> string \<Rightarrow> cache" where
  "cacheDelete c k = filter (\<lambda>(k', v'). k' \<noteq> k) c"

definition updateCache :: "cache \<Rightarrow> string \<Rightarrow> real \<Rightarrow> cache" where
  "updateCache c h score =
     (let c1 = (if length c \<ge> CACHE_SIZE
                then (case c of [] \<Rightarrow> c | (firstKey, _) # _ \<Rightarrow> cacheDelete c firstKey)
                else c)
      in cacheSet c1 h score)"

text \<open>\<^verbatim>\<open>evaluatePosition\<close> with the cache passed in and handed back.\<close>

definition evaluatePosition :: "cache \<Rightarrow> game_state \<Rightarrow> real \<times> cache" where
  "evaluatePosition c gs =
     (let positionHash = hashPosition gs in
      case map_of c positionHash of
        Some cached \<Rightarrow> (cached, c)
      | None \<Rightarrow> (let score = positionScore gs in (score, updateCache c positionHash score)))"

text \<open>The cache contents that can arise: the empty cache (fresh, or cleared), and
  whatever an evaluation leaves behind.\<close>

inductive reachableCache :: "cache \<Rightarrow> bool" where
  empty: "reachableCache []"
| step: "reachableCache c \<Longrightarrow> reachableCache (snd (evaluatePosition c gs))"

text \<open>A client of the evaluator: any computation whose only access to the cache
  is a call of \<^verbatim>\<open>evaluatePosition\<close>, as is the case for the ordering, the
  lookahead and the selection loop of the search controller.\<close>

datatype 'a client = Done 'a | Ask game_state "real \<Rightarrow> 'a client"

primrec runCached :: "'a client \<Rightarrow> cache \<Rightarrow> 'a \<times> cache" where
  "runCached (Done a) c = (a, c)"
| "runCached (Ask gs k) c =
     (case evaluatePosition c gs of (v, c') \<Rightarrow> runCached (k v) c')"

primrec runUncached :: "'a client \<Rightarrow> 'a" where
  "runUncached (Done a) = a"
| "runUncached (Ask gs k) = runUncached (k (fst (evaluatePosition [] gs)))"

text \<open>Two snapshots show the evaluator the same position when they agree on the
  points 1..24, on the bar and on the trays.\<close>

definition sameView :: "game_state \<Rightarrow> game_state \<Rightarrow> bool" where
  "sameView gs gs' =
     (list_all (\<lambda>i. pointAt gs i = pointAt gs' i) [1..24]
      \<and> bar gs = bar gs' \<and> bearoff gs = bearoff gs')"

text \<open>Every entry of the cache is the score of every position with that key.\<close>

definition cacheSound :: "cache \<Rightarrow> bool" where
  "cacheSound c = (\<forall>(h, v) \<in> set c. \<forall>gs. hashPosition gs = h \<longrightarrow> v = positionScore gs)"

section \<open>Ordering bonuses and the ORDER step of the search controller\<close>

definition MAX_SEQUENCES_TO_SEARCH :: nat where
  "MAX_SEQUENCES_TO_SEARCH = 20"

definition NO_CONTACT_HOME_BOARD_MOVE_BONUS :: real where
  "NO_CONTACT_HOME_BOARD_MOVE_BONUS = 2000"

definition BEAROFF_BONUS :: int where
  "BEAROFF_BONUS = 15000"

definition calculateBackmostCheckerBonus :: "move list \<Rightarrow> nat \<Rightarrow> int" where
  "calculateBackmostCheckerBonus sequence pl =
     (if pl \<noteq> 2 then 0
      else foldl (\<lambda>bonus mv.
             case from_pt mv of
               Pt f \<Rightarrow> if f \<ge> 18 \<and> f \<le> 24 then bonus + (f - 17) * 50 else bonus
             | Bar \<Rightarrow> bonus) 0 sequence)"

definition calculateNoContactHomeBoardBonus :: "game_state \<Rightarrow> move list \<Rightarrow> nat \<Rightarrow> real" where
  "calculateNoContactHomeBoardBonus gs sequence pl =
     (if pl \<noteq> 2 then 0
      else if \<not> hasNoContactOnPlayer2Side gs then 0
      else foldl (\<lambda>bonus mv.
             case to_pt mv of
               To t \<Rightarrow>
                 if t \<ge> 1 \<and> t \<le> 6 then
                   (case from_pt mv of
                      Pt f \<Rightarrow>
                        if f > 6 then
                          (let distanceBonus =
                                 (real_of_int (f - 6) * NO_CONTACT_HOME_BOARD_MOVE_BONUS) / 10
                           in bonus + (NO_CONTACT_HOME_BOARD_MOVE_BONUS + distanceBonus))
                        else bonus
                    | Bar \<Rightarrow> bonus + NO_CONTACT_HOME_BOARD_MOVE_BONUS)
                 else bonus
             | Bearoff \<Rightarrow> bonus) 0 sequence)"

definition calculateBearoffBonus :: "game_state \<Rightarrow> move list \<Rightarrow> nat \<Rightarrow> int" where
  "calculateBearoffBonus gs sequence pl =
     (if pl \<noteq> 2 then 0
      else if \<not> allCheckersInHomeBoardForAI gs pl then 0
      else int (length (filter (\<lambda>mv. to_pt mv = Bearoff) sequence)) * BEAROFF_BONUS)"

definition calculateBlitzBonus :: "game_state \<Rightarrow> move list \<Rightarrow> nat \<Rightarrow> int" where
  "calculateBlitzBonus gs sequence pl =
     (if pl \<noteq> 2 then 0
      else if detectGamePhase gs \<noteq> BLITZ then 0
      else
        let resultingState = fst (applySequenceAndScore gs sequence pl);
            hits = foldl (\<lambda>b mv. if isHighPriorityHit gs mv pl then b + 5000 else b) 0 sequence
        in foldl (\<lambda>b i.
             let madeBefore = (player (pointAt gs i) = 2 \<and> count (pointAt gs i) \<ge> 2);
                 madeAfter = (player (pointAt resultingState i) = 2
                              \<and> count (pointAt resultingState i) \<ge> 2)
             in if \<not> madeBefore \<and> madeAfter then b + 3000 else b) hits [1..6])"

definition calculatePrimingBonus :: "game_state \<Rightarrow> move list \<Rightarrow> nat \<Rightarrow> int" where
  "calculatePrimingBonus gs sequence pl =
     (if pl \<noteq> 2 then 0
      else if detectGamePhase gs \<noteq> PRIMING then 0
      else
        let resultingState = fst (applySequenceAndScore gs sequence pl);
            beforePrimes = evaluatePrimes gs pl;
            afterPrimes = evaluatePrimes resultingState pl;
            b1 = (if p_length afterPrimes > p_length beforePrimes
                  then (p_length afterPrimes - p_length beforePrimes) * 5000 else 0);
            b2 = (if p_count afterPrimes > p_count beforePrimes
                  then b1 + (p_count afterPrimes - p_count beforePrimes) * 2000 else b1)
        in if p_length afterPrimes \<ge> 6 then b2 + 10000 else b2)"

text \<open>The score \<^verbatim>\<open>orderMovesByEvaluation\<close> gives a candidate.  \<open>None\<close> is
  \<^verbatim>\<open>-Infinity\<close>, the score of the empty sequence; on \<open>option\<close> it is the least
  element.  The position score is the number \<^verbatim>\<open>evaluatePosition\<close> returns,
  which by the cache theorem is \<open>positionScore\<close> whatever the cache holds.\<close>

definition shallowScore :: "game_state \<Rightarrow> move list \<Rightarrow> nat \<Rightarrow> real option" where
  "shallowScore gs sequence pl =
     (if sequence = [] then None
      else
        let applied = applySequenceAndScore gs sequence pl;
            resultingState = fst applied;
            hitPriorityScore = snd applied
        in Some (positionScore resultingState
                 + real_of_int hitPriorityScore
                 + real_of_int (calculateBackmostCheckerBonus sequence pl)
                 + calculateNoContactHomeBoardBonus gs sequence pl
                 + real_of_int (calculateBearoffBonus gs sequence pl)
                 + real_of_int (calculateBlitzBonus gs sequence pl)
                 + real_of_int (calculatePrimingBonus gs sequence pl)))"

text \<open>\<^verbatim>\<open>scoredSequences.sort((a, b) => b.score - a.score)\<close>: the sort is stable,
  so the result is the arrangement in descending score order in which candidates of
  equal score keep their relative order.  Inserting from the right, each element in
  front of the first one that does not beat it, computes that arrangement.\<close>

fun insertDesc :: "'a \<times> 'k::linorder \<Rightarrow> ('a \<times> 'k) list \<Rightarrow> ('a \<times> 'k) list" where
  "insertDesc x [] = [x]"
| "insertDesc x (y # ys) = (if snd x < snd y then y # insertDesc x ys else x # y # ys)"

definition sortDesc :: "('a \<times> 'k::linorder) list \<Rightarrow> ('a \<times> 'k) list" where
  "sortDesc xs = foldr insertDesc xs []"

definition orderMovesByEvaluation ::
  "move list list \<Rightarrow> game_state \<Rightarrow> nat \<Rightarrow> move list list" where
  "orderMovesByEvaluation sequences gs pl =
     (let scoredSequences = map (\<lambda>sequence. (sequence, shallowScore gs sequence pl)) sequences
      in map fst (sortDesc scoredSequences))"

text \<open>The part of \<^verbatim>\<open>getBestMove\<close> between generation and filtering.\<close>

definition sequencesToEvaluate :: "game_state \<Rightarrow> move list list" where
  "sequencesToEvaluate gs =
     (let moveSequences = generateAllMoveSequences gs (availableMoves gs) 2
      in if length moveSequences > MAX_SEQUENCES_TO_SEARCH
         then take MAX_SEQUENCES_TO_SEARCH moveSequences
         else moveSequences)"

definition orderedSequences :: "game_state \<Rightarrow> move list list" where
  "orderedSequences gs = orderMovesByEvaluation (sequencesToEvaluate gs) gs 2"

text \<open>Player 2 to move with 6 and 5: checkers on 7, 8, 9 and two back checkers on
  24; player 1 holds point 4.  The two sequences below bring one back checker to
  point 13, the first through point 18, the second through point 19.\<close>

definition orderState :: game_state where
  "orderState =
     \<lparr>board = mkBoard [(4, 1, 2), (12, 1, 5), (17, 1, 3), (21, 1, 5),
                        (7, 2, 4), (8, 2, 4), (9, 2, 5), (24, 2, 2)],
      bar = \<lparr>player1 = 0, player2 = 0\<rparr>, bearoff = \<lparr>player1 = 0, player2 = 0\<rparr>,
      currentPlayer = 2, availableMoves = [6, 5]\<rparr>"

definition runVia18 :: "move list" where
  "runVia18 =
     [\<lparr>to_pt = To 18, die = 6, from_pt = Pt 24\<rparr>, \<lparr>to_pt = To 13, die = 5, from_pt = Pt 18\<rparr>]"

definition runVia19 :: "move list" where
  "runVia19 =
     [\<lparr>to_pt = To 19, die = 5, from_pt = Pt 24\<rparr>, \<lparr>to_pt = To 13, die = 6, from_pt = Pt 19\<rparr>]"

section \<open>The simulator on the object store\<close>

text \<open>Whether the simulator leaves its argument alone is a question about
  references, which the value-level model above cannot ask.  Here the store is a
  list of objects and a reference is an index into it; \<^verbatim>\<open>{ ... }\<close> and
  \<^verbatim>\<open>[ ... ]\<close> allocate at the end.  A function returns \<open>None\<close> where the source
  throws a \<^verbatim>\<open>TypeError\<close> (a property read on \<^verbatim>\<open>undefined\<close>).\<close>

type_synonym addr = nat

datatype obj =
    PointObj nat int
  | PairObj int int
  | NumArray "int list"
  | RefArray "addr list"
  | StateObj addr addr addr nat "addr option"

type_synonym heap = "obj list"

definition lookup :: "heap \<Rightarrow> addr \<Rightarrow> obj option" where
  "lookup h a = (if a < length h then Some (h ! a) else None)"

definition alloc :: "heap \<Rightarrow> obj \<Rightarrow> addr \<times> heap" where
  "alloc h ob = (length h, h @ [ob])"

definition store :: "heap \<Rightarrow> addr \<Rightarrow> obj \<Rightarrow> heap" where
  "store h a ob = h[a := ob]"

definition stateFields :: "heap \<Rightarrow> addr \<Rightarrow> (addr \<times> addr \<times> addr \<times> nat \<times> addr option) option" where
  "stateFields h g =
     (case lookup h g of Some (StateObj b r f cp av) \<Rightarrow> Some (b, r, f, cp, av) | _ \<Rightarrow> None)"

definition pointFields :: "heap \<Rightarrow> addr \<Rightarrow> (nat \<times> int) option" where
  "pointFields h a = (case lookup h a of Some (PointObj pl c) \<Rightarrow> Some (pl, c) | _ \<Rightarrow> None)"

definition pairFields :: "heap \<Rightarrow> addr \<Rightarrow> (int \<times> int) option" where
  "pairFields h a = (case lookup h a of Some (PairObj x y) \<Rightarrow> Some (x, y) | _ \<Rightarrow> None)"

definition numArray :: "heap \<Rightarrow> addr \<Rightarrow> int list option" where
  "numArray h a = (case lookup h a of Some (NumArray ds) \<Rightarrow> Some ds | _ \<Rightarrow> None)"

definition refArray :: "heap \<Rightarrow> addr \<Rightarrow> addr list option" where
  "refArray h a = (case lookup h a of Some (RefArray ps) \<Rightarrow> Some ps | _ \<Rightarrow> None)"

text \<open>\<^verbatim>\<open>gameState.availableMoves || []\<close>.\<close>

definition movesOf :: "heap \<Rightarrow> addr option \<Rightarrow> int list option" where
  "movesOf h av = (case av of None \<Rightarrow> Some [] | Some a \<Rightarrow> numArray h a)"

text \<open>\<^verbatim>\<open>gameState.board.map((p) => ({ ...p }))\<close>: one new point object per slot.\<close>

fun clonePoints :: "heap \<Rightarrow> addr list \<Rightarrow> (addr list \<times> heap) option" where
  "clonePoints h [] = Some ([], h)"
| "clonePoints h (p # ps) =
     do {
       (pl, c) \<leftarrow> pointFields h p;
       (a, h1) \<leftarrow> Some (alloc h (PointObj pl c));
       (as, h2) \<leftarrow> clonePoints h1 ps;
       Some (a # as, h2)
     }"

definition cloneStateH :: "heap \<Rightarrow> addr \<Rightarrow> (addr \<times> heap) option" where
  "cloneStateH h g =
     do {
       (b, r, f, cp, av) \<leftarrow> stateFields h g;
       ps \<leftarrow> refArray h b;
       (ps', h1) \<leftarrow> clonePoints h ps;
       (b', h2) \<leftarrow> Some (alloc h1 (RefArray ps'));
       (x, y) \<leftarrow> pairFields h2 r;
       (r', h3) \<leftarrow> Some (alloc h2 (PairObj x y));
       (x', y') \<leftarrow> pairFields h3 f;
       (f', h4) \<leftarrow> Some (alloc h3 (PairObj x' y'));
       ds \<leftarrow> movesOf h4 av;
       (av', h5) \<leftarrow> Some (alloc h4 (NumArray ds));
       Some (alloc h5 (StateObj b' r' f' cp (Some av')))
     }"

text \<open>\<^verbatim>\<open>state.board[i]\<close>: the reference in slot \<open>i\<close>, and the fields of the point it
  refers to.\<close>

definition readPoint :: "heap \<Rightarrow> addr \<Rightarrow> int \<Rightarrow> (addr \<times> nat \<times> int) option" where
  "readPoint h ns i =
     do {
       (b, r, f, cp, av) \<leftarrow> stateFields h ns;
       ps \<leftarrow> refArray h b;
       a \<leftarrow> (if 0 \<le> i \<and> nat i < length ps then Some (ps ! nat i) else None);
       (pl, c) \<leftarrow> pointFields h a;
       Some (a, pl, c)
     }"

text \<open>\<^verbatim>\<open>state.board[i] = { player: pl, count: c }\<close>.\<close>

definition assignPoint :: "heap \<Rightarrow> addr \<Rightarrow> int \<Rightarrow> nat \<Rightarrow> int \<Rightarrow> heap option" where
  "assignPoint h ns i pl c =
     do {
       (b, r, f, cp, av) \<leftarrow> stateFields h ns;
       ps \<leftarrow> refArray h b;
       (a, h1) \<leftarrow> Some (alloc h (PointObj pl c));
       if 0 \<le> i \<and> nat i < length ps then Some (store h1 b (RefArray (ps[nat i := a]))) else None
     }"

text \<open>\<^verbatim>\<open>state.bar[`player${pl}`] += k\<close> and the same for \<^verbatim>\<open>bearoff\<close>.\<close>

definition addToPair :: "heap \<Rightarrow> addr \<Rightarrow> nat \<Rightarrow> int \<Rightarrow> heap option" where
  "addToPair h a pl k =
     do {
       (x, y) \<leftarrow> pairFields h a;
       Some (store h a (if pl = 1 then PairObj (x + k) y else PairObj x (y + k)))
     }"

definition addToBar :: "heap \<Rightarrow> addr \<Rightarrow> nat \<Rightarrow> int \<Rightarrow> heap option" where
  "addToBar h ns pl k =
     do { (b, r, f, cp, av) \<leftarrow> stateFields h ns; addToPair h r pl k }"

definition addToBearoff :: "heap \<Rightarrow> addr \<Rightarrow> nat \<Rightarrow> int \<Rightarrow> heap option" where
  "addToBearoff h ns pl k =
     do { (b, r, f, cp, av) \<leftarrow> stateFields h ns; addToPair h f pl k }"

definition landOnH :: "heap \<Rightarrow> addr \<Rightarrow> int \<Rightarrow> nat \<Rightarrow> heap option" where
  "landOnH h ns t pl =
     do {
       (a, opl, c) \<leftarrow> readPoint h ns t;
       h1 \<leftarrow> (if opl \<noteq> 0 \<and> opl \<noteq> pl
              then do {
                     h' \<leftarrow> addToBar h ns (if pl = 1 then 2 else 1) 1;
                     assignPoint h' ns t 0 0
                   }
              else Some h);
       (a1, pl1, c1) \<leftarrow> readPoint h1 ns t;
       if pl1 = pl then Some (store h1 a1 (PointObj pl1 (c1 + 1)))
       else assignPoint h1 ns t pl 1
     }"

definition liftFromH :: "heap \<Rightarrow> addr \<Rightarrow> int \<Rightarrow> heap option" where
  "liftFromH h ns f =
     do {
       (a, pl0, c) \<leftarrow> readPoint h ns f;
       h1 \<leftarrow> Some (store h a (PointObj pl0 (c - 1)));
       (a1, pl1, c1) \<leftarrow> readPoint h1 ns f;
       if c1 = 0 then Some (store h1 a1 (PointObj 0 c1)) else Some h1
     }"

text \<open>\<^verbatim>\<open>simulateMove\<close>: clone, then mutate the clone.  With \<^verbatim>\<open>from === "bar"\<close>
  and \<^verbatim>\<open>to === "bearoff"\<close> the source decrements the bar and then throws on
  \<^verbatim>\<open>board["bearoff"].player\<close>.\<close>

definition simulateMoveH ::
  "heap \<Rightarrow> addr \<Rightarrow> source \<Rightarrow> dest \<Rightarrow> int \<Rightarrow> nat \<Rightarrow> (addr \<times> heap) option" where
  "simulateMoveH h g src dst d pl =
     do {
       (ns, h1) \<leftarrow> cloneStateH h g;
       h2 \<leftarrow> (case src of
                Bar \<Rightarrow>
                  (case dst of
                     To t \<Rightarrow> do { h' \<leftarrow> addToBar h1 ns pl (- 1); landOnH h' ns t pl }
                   | Bearoff \<Rightarrow> None)
              | Pt f \<Rightarrow>
                  (case dst of
                     Bearoff \<Rightarrow> do { h' \<leftarrow> liftFromH h1 ns f; addToBearoff h' ns pl 1 }
                   | To t \<Rightarrow> do { h' \<leftarrow> liftFromH h1 ns f; landOnH h' ns t pl }));
       Some (ns, h2)
     }"

text \<open>\<^verbatim>\<open>isHighPriorityHit\<close> on the store; it only reads, and
  \<^verbatim>\<open>pointState && ...\<close> answers falsy for a slot the board array does not have.\<close>

definition isHighPriorityHitH :: "heap \<Rightarrow> addr \<Rightarrow> move \<Rightarrow> nat \<Rightarrow> bool option" where
  "isHighPriorityHitH h cs mv pl =
     (if pl \<noteq> 2 then Some False
      else case to_pt mv of
        Bearoff \<Rightarrow> Some False
      | To t \<Rightarrow>
          if t < 1 \<or> t > 24 then Some False
          else if t \<ge> PLAYER1_HOME_START_POINT \<and> t \<le> PLAYER1_HOME_END_POINT then Some False
          else do {
                 (b, r, f, cp, av) \<leftarrow> stateFields h cs;
                 ps \<leftarrow> refArray h b;
                 if nat t < length ps
                 then do { (opl, c) \<leftarrow> pointFields h (ps ! nat t); Some (opl = 1 \<and> c = 1) }
                 else Some False
               })"

text \<open>One round of the loop of \<^verbatim>\<open>applySequenceAndScore\<close>:
  \<^verbatim>\<open>[...currentState.availableMoves]\<close> allocates a copy, \<^verbatim>\<open>splice\<close> changes the
  copy, and \<^verbatim>\<open>{ ...currentState, availableMoves: newAvailableMoves }\<close> allocates
  a state object that shares board, bar and tray with the simulated state.\<close>

definition applyStepH ::
  "nat \<Rightarrow> (addr \<times> int) \<times> heap \<Rightarrow> move \<Rightarrow> ((addr \<times> int) \<times> heap) option" where
  "applyStepH pl st mv =
     (case st of ((currentState, hitPriorityScore), h) \<Rightarrow>
        do {
          hit \<leftarrow> isHighPriorityHitH h currentState mv pl;
          (moved, h1) \<leftarrow> simulateMoveH h currentState (from_pt mv) (to_pt mv) (die mv) pl;
          (b, r, f, cp, av) \<leftarrow> stateFields h1 moved;
          ds \<leftarrow> movesOf h1 av;
          (newAvailableMoves, h2) \<leftarrow> Some (alloc h1 (NumArray ds));
          h3 \<leftarrow> Some (store h2 newAvailableMoves (NumArray (remove1 (die mv) ds)));
          (cs', h4) \<leftarrow> Some (alloc h3 (StateObj b r f cp (Some newAvailableMoves)));
          Some ((cs', if hit then hitPriorityScore + HIGH_PRIORITY_HIT_BONUS else hitPriorityScore),
                h4)
        })"

fun applyLoopH ::
  "nat \<Rightarrow> (addr \<times> int) \<times> heap \<Rightarrow> move list \<Rightarrow> ((addr \<times> int) \<times> heap) option" where
  "applyLoopH pl st [] = Some st"
| "applyLoopH pl st (mv # mvs) = do { st' \<leftarrow> applyStepH pl st mv; applyLoopH pl st' mvs }"

definition applySequenceAndScoreH ::
  "heap \<Rightarrow> addr \<Rightarrow> move list \<Rightarrow> nat \<Rightarrow> ((addr \<times> int) \<times> heap) option" where
  "applySequenceAndScoreH h g sequence pl =
     do {
       (currentState, h1) \<leftarrow> cloneStateH h g;
       applyLoopH pl ((currentState, 0), h1) sequence
     }"

text \<open>The snapshot a state reference denotes, when everything it reaches is of the
  right kind.\<close>

definition pointsOf :: "heap \<Rightarrow> addr list \<Rightarrow> point list option" where
  "pointsOf h ps =
     those (map (\<lambda>a. map_option (\<lambda>(pl, c). \<lparr>player = pl, count = c\<rparr>) (pointFields h a)) ps)"

definition absState :: "heap \<Rightarrow> addr \<Rightarrow> game_state option" where
  "absState h g =
     do {
       (b, r, f, cp, av) \<leftarrow> stateFields h g;
       ps \<leftarrow> refArray h b;
       pts \<leftarrow> pointsOf h ps;
       (x, y) \<leftarrow> pairFields h r;
       (x', y') \<leftarrow> pairFields h f;
       ds \<leftarrow> movesOf h av;
       Some \<lparr>board = pts, bar = \<lparr>player1 = x, player2 = y\<rparr>,
             bearoff = \<lparr>player1 = x', player2 = y'\<rparr>,
             currentPlayer = cp, availableMoves = ds\<rparr>
     }"

text \<open>A store holding the starting position the way \<^verbatim>\<open>getState\<close> hands it to
  the engine: 25 point objects at the addresses 0..24, then the board array, the
  bar, the trays, the dice and the state object at address 29.\<close>

definition openingHeap :: heap where
  "openingHeap =
     map (\<lambda>p. PointObj (player p) (count p)) (board openingState)
     @ [RefArray [0..<25], PairObj 0 0, PairObj 0 0, NumArray [3, 1],
        StateObj 25 26 27 2 (Some 28)]"

text \<open>The same as a relation, which is easier to maintain through updates:
  reference \<open>g\<close> denotes snapshot \<open>gs\<close> in store \<open>h\<close>.\<close>

definition denotes :: "heap \<Rightarrow> addr \<Rightarrow> game_state \<Rightarrow> bool" where
  "denotes h g gs =
     (\<exists>b r f av ps.
        stateFields h g = Some (b, r, f, currentPlayer gs, av)
        \<and> refArray h b = Some ps
        \<and> length ps = length (board gs)
        \<and> (\<forall>i<length ps. pointFields h (ps ! i)
                            = Some (player (board gs ! i), count (board gs ! i)))
        \<and> pairFields h r = Some (player1 (bar gs), player2 (bar gs))
        \<and> pairFields h f = Some (player1 (bearoff gs), player2 (bearoff gs))
        \<and> movesOf h av = Some (availableMoves gs))"

text \<open>State \<open>ns\<close> denotes \<open>gs\<close> and was built after the store had \<open>n\<close>
  objects, sharing nothing with the older part: its board array, its point
  objects, its bar and its trays all live at addresses from \<open>n\<close> on, and no two of
  them coincide; the state object and its dice array are that new as well.\<close>

definition owns :: "nat \<Rightarrow> heap \<Rightarrow> addr \<Rightarrow> game_state \<Rightarrow> bool" where
  "owns n h ns gs =
     (\<exists>b r f av ps.
        stateFields h ns = Some (b, r, f, currentPlayer gs, av)
        \<and> refArray h b = Some ps
        \<and> length ps = length (board gs)
        \<and> (\<forall>i<length ps. pointFields h (ps ! i)
                            = Some (player (board gs ! i), count (board gs ! i)))
        \<and> pairFields h r = Some (player1 (bar gs), player2 (bar gs))
        \<and> pairFields h f = Some (player1 (bearoff gs), player2 (bearoff gs))
        \<and> movesOf h av = Some (availableMoves gs)
        \<and> n \<le> b \<and> n \<le> r \<and> n \<le> f \<and> r \<noteq> f
        \<and> distinct ps \<and> (\<forall>p\<in>set ps. n \<le> p)
        \<and> n \<le> ns \<and> (\<forall>a. av = Some a \<longrightarrow> n \<le> a))"

text \<open>The indices the simulator reads must exist in the board array; the pairing
  of the bar with a bear-off is the one the source throws on.\<close>

definition inBoard :: "game_state \<Rightarrow> int \<Rightarrow> bool" where
  "inBoard gs i = (0 \<le> i \<and> nat i < length (board gs))"

definition moveInRange :: "game_state \<Rightarrow> source \<Rightarrow> dest \<Rightarrow> bool" where
  "moveInRange gs src dst =
     (case src of
        Bar \<Rightarrow> (case dst of To t \<Rightarrow> inBoard gs t | Bearoff \<Rightarrow> False)
      | Pt f \<Rightarrow> inBoard gs f \<and> (case dst of To t \<Rightarrow> inBoard gs t | Bearoff \<Rightarrow> True))"

definition sequenceInRange :: "game_state \<Rightarrow> move list \<Rightarrow> bool" where
  "sequenceInRange gs sequence =
     list_all (\<lambda>mv. moveInRange gs (from_pt mv) (to_pt mv)) sequence"

text \<open>Everything a state reference reaches in one or two steps: the state object,
  its board array, bar, tray and dice array, and the point objects.  A state is
  freshly built with respect to a store of \<open>n\<close> objects when all of these lie at
  addresses from \<open>n\<close> on.\<close>

definition parts :: "heap \<Rightarrow> addr \<Rightarrow> addr list option" where
  "parts h g =
     do {
       (b, r, f, cp, av) \<leftarrow> stateFields h g;
       ps \<leftarrow> refArray h b;
       Some (g # b # r # f # (case av of None \<Rightarrow> [] | Some a \<Rightarrow> [a]) @ ps)
     }"

definition builtAfter :: "nat \<Rightarrow> heap \<Rightarrow> addr \<Rightarrow> bool" where
  "builtAfter n h g = (case parts h g of None \<Rightarrow> False | Some as \<Rightarrow> list_all (\<lambda>a. n \<le> a) as)"

section \<open>Proofs\<close>

text \<open>The generator is unfolded by hand, and ranges such as \<open>[7..24]\<close> stay folded.\<close>

declare generateAllMoveSequences.simps [simp del]

declare upto_rec_numeral [simp del]

lemma cloneState_id [simp]: "cloneState gs = gs"
  by (simp add: cloneState_def)

lemma onBoard_sum: "onBoard gs pl = (\<Sum>i\<in>{1..24}. contrib (pointAt gs i) pl)"
  unfolding onBoard_def
  by (subst sum_list_distinct_conv_sum_set) simp_all

lemma pointAt_setPoint:
  "0 \<le> i \<Longrightarrow> 0 \<le> k \<Longrightarrow> k < int (length (board gs)) \<Longrightarrow>
   pointAt (setPoint gs k x) i = (if i = k then x else pointAt gs i)"
  by (auto simp: pointAt_def setPoint_def nth_list_update)

lemma setPoint_fields [simp]:
  "bar (setPoint gs k x) = bar gs" "bearoff (setPoint gs k x) = bearoff gs"
  "length (board (setPoint gs k x)) = length (board gs)"
  "currentPlayer (setPoint gs k x) = currentPlayer gs"
  "availableMoves (setPoint gs k x) = availableMoves gs"
  by (simp_all add: setPoint_def)

lemma pointAt_bar_update [simp]: "pointAt (gs\<lparr>bar := b\<rparr>) i = pointAt gs i"
  by (simp add: pointAt_def)

lemma pointAt_bearoff_update [simp]: "pointAt (gs\<lparr>bearoff := b\<rparr>) i = pointAt gs i"
  by (simp add: pointAt_def)

lemma onBoard_bar_update [simp]: "onBoard (gs\<lparr>bar := b\<rparr>) pl = onBoard gs pl"
  by (simp add: onBoard_def)

lemma onBoard_bearoff_update [simp]: "onBoard (gs\<lparr>bearoff := b\<rparr>) pl = onBoard gs pl"
  by (simp add: onBoard_def)

lemma onBoard_setPoint:
  assumes "1 \<le> k" "k \<le> 24" "length (board gs) = 25"
  shows "onBoard (setPoint gs k x) pl = onBoard gs pl - contrib (pointAt gs k) pl + contrib x pl"
proof -
  have k: "k \<in> {1..24}" using assms by simp
  have fin: "finite {1..24::int}" by simp
  have rest: "(\<Sum>i\<in>{1..24} - {k}. contrib (pointAt (setPoint gs k x) i) pl)
            = (\<Sum>i\<in>{1..24} - {k}. contrib (pointAt gs i) pl)"
    by (rule sum.cong) (use assms in \<open>auto simp: pointAt_setPoint\<close>)
  have "onBoard (setPoint gs k x) pl
        = contrib (pointAt (setPoint gs k x) k) pl
          + (\<Sum>i\<in>{1..24} - {k}. contrib (pointAt (setPoint gs k x) i) pl)"
    unfolding onBoard_sum by (rule sum.remove [OF fin k])
  also have "contrib (pointAt (setPoint gs k x) k) pl = contrib x pl"
    using assms by (simp add: pointAt_setPoint)
  finally have a: "onBoard (setPoint gs k x) pl
        = contrib x pl + (\<Sum>i\<in>{1..24} - {k}. contrib (pointAt gs i) pl)"
    using rest by simp
  have b: "onBoard gs pl = contrib (pointAt gs k) pl + (\<Sum>i\<in>{1..24} - {k}. contrib (pointAt gs i) pl)"
    unfolding onBoard_sum by (rule sum.remove [OF fin k])
  from a b show ?thesis by simp
qed

lemma getP_setP: "getP (setP b pl v) q = (if (q = 1) = (pl = 1) then v else getP b q)"
  by (simp add: getP_def setP_def)

lemma liftFrom_fields [simp]:
  "bar (liftFrom gs f) = bar gs" "bearoff (liftFrom gs f) = bearoff gs"
  "length (board (liftFrom gs f)) = length (board gs)"
  by (simp_all add: liftFrom_def Let_def)

lemma pointAt_liftFrom:
  assumes "1 \<le> f" "f \<le> 24" "length (board gs) = 25" "0 \<le> i"
  shows "pointAt (liftFrom gs f) i =
     (if i = f then (if count (pointAt gs f) = 1 then \<lparr>player = 0, count = 0\<rparr>
                     else (pointAt gs f)\<lparr>count := count (pointAt gs f) - 1\<rparr>)
      else pointAt gs i)"
  using assms by (auto simp: liftFrom_def Let_def pointAt_setPoint)

lemma onBoard_liftFrom:
  assumes "1 \<le> f" "f \<le> 24" "length (board gs) = 25"
  shows "onBoard (liftFrom gs f) pl = onBoard gs pl - (if player (pointAt gs f) = pl then 1 else 0)"
  using assms
  by (auto simp: liftFrom_def Let_def onBoard_setPoint pointAt_setPoint contrib_def)

lemma total_liftFrom:
  assumes "1 \<le> f" "f \<le> 24" "length (board gs) = 25"
  shows "total (liftFrom gs f) pl = total gs pl - (if player (pointAt gs f) = pl then 1 else 0)"
  using assms by (simp add: total_def onBoard_liftFrom)

lemma boardShape_pointD:
  "boardShape gs \<Longrightarrow> 1 \<le> i \<Longrightarrow> i \<le> 24 \<Longrightarrow> player (pointAt gs i) \<le> 2"
  by (auto simp: boardShape_def list_all_iff)

lemma boardShape_length: "boardShape gs \<Longrightarrow> length (board gs) = 25"
  by (simp add: boardShape_def)

lemma boardShape_setPoint:
  "boardShape gs \<Longrightarrow> 1 \<le> k \<Longrightarrow> k \<le> 24 \<Longrightarrow> player x \<le> 2 \<Longrightarrow> boardShape (setPoint gs k x)"
  by (auto simp: boardShape_def list_all_iff pointAt_setPoint)

lemma boardShape_bar_update [simp]: "boardShape (gs\<lparr>bar := b\<rparr>) = boardShape gs"
  by (simp add: boardShape_def)

lemma boardShape_bearoff_update [simp]: "boardShape (gs\<lparr>bearoff := b\<rparr>) = boardShape gs"
  by (simp add: boardShape_def)

lemma boardShape_liftFrom:
  "boardShape gs \<Longrightarrow> 1 \<le> f \<Longrightarrow> f \<le> 24 \<Longrightarrow> boardShape (liftFrom gs f)"
  by (auto simp: boardShape_def list_all_iff pointAt_liftFrom)

lemma canMove_range: "canMoveToPointForAI gs t pl \<Longrightarrow> 1 \<le> t \<and> t \<le> 24"
  by (auto simp: canMoveToPointForAI_def split: if_splits)

lemma canMove_bar_update [simp]:
  "canMoveToPointForAI (gs\<lparr>bar := b\<rparr>) t pl = canMoveToPointForAI gs t pl"
  by (simp add: canMoveToPointForAI_def)

lemma total_landOn:
  assumes sh: "boardShape gs" and pl: "pl = 1 \<or> pl = 2" and q: "q = 1 \<or> q = 2"
    and can: "canMoveToPointForAI gs t pl"
  shows "total (landOn gs t pl) q = total gs q + (if q = pl then 1 else 0)"
proof -
  have t: "1 \<le> t" "t \<le> 24" using canMove_range [OF can] by auto
  have len: "length (board gs) = 25" using sh by (simp add: boardShape_def)
  have own: "player (pointAt gs t) \<le> 2" using boardShape_pointD [OF sh t] .
  show ?thesis
    using t len own pl q can
    by (auto simp: landOn_def Let_def total_def onBoard_setPoint pointAt_setPoint contrib_def
        getP_setP canMoveToPointForAI_def split: if_splits)
qed

lemma boardShape_landOn:
  assumes sh: "boardShape gs" and pl: "pl = 1 \<or> pl = 2" and t: "1 \<le> t" "t \<le> 24"
  shows "boardShape (landOn gs t pl)"
proof -
  have len: "length (board gs) = 25" using sh by (simp add: boardShape_def)
  have own: "player (pointAt gs t) \<le> 2" using boardShape_pointD [OF sh t] .
  show ?thesis using sh pl t len own
    by (auto simp: landOn_def Let_def pointAt_setPoint intro!: boardShape_setPoint)
qed

lemma canMove_liftFrom:
  assumes "canMoveToPointForAI gs t pl" "player (pointAt gs f) = pl" "1 \<le> f" "f \<le> 24"
    "length (board gs) = 25"
  shows "canMoveToPointForAI (liftFrom gs f) t pl"
  using assms by (auto simp: canMoveToPointForAI_def Let_def pointAt_liftFrom split: if_splits)

text \<open>What the oracle's answers look like.\<close>

lemma getValid_Bar_D:
  assumes "mv \<in> set (getValidMovesForAI gs Bar avail pl)"
  shows "\<exists>t. to_pt mv = To t \<and> canMoveToPointForAI gs t pl \<and> getP (bar gs) pl \<noteq> 0
             \<and> die mv \<in> set avail"
  using assms by (cases "pl = 1") (auto simp: getValidMovesForAI_def Let_def split: if_splits)

lemma getValid_Pt_D:
  assumes "mv \<in> set (getValidMovesForAI gs (Pt f) avail pl)"
  shows "player (pointAt gs f) = pl \<and> count (pointAt gs f) \<noteq> 0 \<and> \<not> getP (bar gs) pl > 0
         \<and> die mv \<in> set avail
         \<and> ((to_pt mv = Bearoff \<and> canBearOffForAI gs f (die mv) pl)
            \<or> (\<exists>t. to_pt mv = To t \<and> canMoveToPointForAI gs t pl))"
  using assms by (auto simp: getValidMovesForAI_def Let_def split: if_splits)

lemma simulateMove_total:
  assumes sh: "boardShape gs" and pl: "pl = 1 \<or> pl = 2" and q: "q = 1 \<or> q = 2"
    and src: "validSource src"
    and mv: "mv \<in> set (getValidMovesForAI gs src avail pl)"
  shows "total (simulateMove gs src (to_pt mv) (die mv) pl) q = total gs q"
proof (cases src)
  case Bar
  from getValid_Bar_D [OF mv [unfolded Bar]] obtain t where
    t: "to_pt mv = To t" "canMoveToPointForAI gs t pl" by blast
  let ?g1 = "gs\<lparr>bar := setP (bar gs) pl (getP (bar gs) pl - 1)\<rparr>"
  have "total (landOn ?g1 t pl) q = total ?g1 q + (if q = pl then 1 else 0)"
    by (rule total_landOn) (use sh pl q t in simp_all)
  moreover have "total ?g1 q = total gs q - (if q = pl then 1 else 0)"
    using pl q by (auto simp: total_def getP_setP)
  ultimately show ?thesis using Bar t by (simp add: Let_def)
next
  case (Pt f)
  have f: "1 \<le> f" "f \<le> 24" using src Pt by (simp_all add: validSource_def)
  have len: "length (board gs) = 25" using sh by (rule boardShape_length)
  from getValid_Pt_D [OF mv [unfolded Pt]] have
    own: "player (pointAt gs f) = pl"
    and dst: "(to_pt mv = Bearoff \<and> canBearOffForAI gs f (die mv) pl)
            \<or> (\<exists>t. to_pt mv = To t \<and> canMoveToPointForAI gs t pl)" by auto
  from dst show ?thesis
  proof
    assume "to_pt mv = Bearoff \<and> canBearOffForAI gs f (die mv) pl"
    then show ?thesis
      using Pt f len own pl q
      by (auto simp: Let_def total_def onBoard_liftFrom getP_setP)
  next
    assume "\<exists>t. to_pt mv = To t \<and> canMoveToPointForAI gs t pl"
    then obtain t where t: "to_pt mv = To t" "canMoveToPointForAI gs t pl" by blast
    have "total (landOn (liftFrom gs f) t pl) q
          = total (liftFrom gs f) q + (if q = pl then 1 else 0)"
      by (rule total_landOn)
         (use sh pl q t f own len in \<open>simp_all add: boardShape_liftFrom canMove_liftFrom\<close>)
    then show ?thesis
      using Pt t f len own by (simp add: Let_def total_liftFrom)
  qed
qed

lemma simulateMove_boardShape:
  assumes sh: "boardShape gs" and pl: "pl = 1 \<or> pl = 2"
    and src: "validSource src"
    and mv: "mv \<in> set (getValidMovesForAI gs src avail pl)"
  shows "boardShape (simulateMove gs src (to_pt mv) (die mv) pl)"
proof (cases src)
  case Bar
  from getValid_Bar_D [OF mv [unfolded Bar]] obtain t where
    t: "to_pt mv = To t" "canMoveToPointForAI gs t pl" by blast
  show ?thesis using Bar t sh pl canMove_range [OF t(2)]
    by (simp add: Let_def boardShape_landOn)
next
  case (Pt f)
  have f: "1 \<le> f" "f \<le> 24" using src Pt by (simp_all add: validSource_def)
  from getValid_Pt_D [OF mv [unfolded Pt]] have
    dst: "(to_pt mv = Bearoff \<and> canBearOffForAI gs f (die mv) pl)
            \<or> (\<exists>t. to_pt mv = To t \<and> canMoveToPointForAI gs t pl)" by auto
  then show ?thesis
    using Pt f sh pl
    by (auto simp: Let_def boardShape_liftFrom boardShape_landOn dest: canMove_range)
qed

lemma simulateMove_conservation:
  assumes "boardShape gs" "pl = 1 \<or> pl = 2" "validSource src"
    "mv \<in> set (getValidMovesForAI gs src avail pl)" "conservation gs"
  shows "conservation (simulateMove gs src (to_pt mv) (die mv) pl)"
  using assms simulateMove_total [of gs pl 1 src mv avail] simulateMove_total [of gs pl 2 src mv avail]
  by (simp add: conservation_def)

text \<open>Structure of the generator's result.\<close>


lemma sourcePointsOf_valid: "src \<in> set (sourcePointsOf gs pl) \<Longrightarrow> validSource src"
  by (auto simp: sourcePointsOf_def validSource_def split: if_splits)

lemma gen_nonempty: "generateAllMoveSequences gs avail pl \<noteq> []"
  by (subst generateAllMoveSequences.simps) (simp add: Let_def)

lemma gen_Nil [simp]: "generateAllMoveSequences gs [] pl = [[]]"
  by (subst generateAllMoveSequences.simps) simp

lemma gen_cases:
  assumes "seq \<in> set (generateAllMoveSequences gs avail pl)"
  shows "(seq = [] \<and> (\<forall>src\<in>set (sourcePointsOf gs pl). getValidMovesForAI gs src avail pl = []))
       \<or> (\<exists>src mv rest. avail \<noteq> [] \<and> src \<in> set (sourcePointsOf gs pl)
             \<and> mv \<in> set (getValidMovesForAI gs src avail pl)
             \<and> seq = \<lparr>to_pt = to_pt mv, die = die mv, from_pt = src\<rparr> # rest
             \<and> rest \<in> set (generateAllMoveSequences
                   (simulateMove gs src (to_pt mv) (die mv) pl) (remove1 (die mv) avail) pl))"
proof (cases "avail = []")
  case True
  then show ?thesis using assms
    by (auto simp: getValidMovesForAI_def split: source.splits)
next
  case False
  let ?S = "concat (map (\<lambda>source.
                concat (map (\<lambda>mv.
                  map (\<lambda>seq. \<lparr>to_pt = to_pt mv, die = die mv, from_pt = source\<rparr> # seq)
                    (generateAllMoveSequences
                       (simulateMove gs source (to_pt mv) (die mv) pl)
                       (remove1 (die mv) avail) pl))
                  (getValidMovesForAI gs source avail pl)))
                (sourcePointsOf gs pl))"
  have eq: "generateAllMoveSequences gs avail pl = (if ?S = [] then [[]] else ?S)"
    using False
    by (subst generateAllMoveSequences.simps) (simp add: Let_def sourcePointsOf_def)
  show ?thesis
  proof (cases "?S = []")
    case True
    then have "seq = []" using assms eq by simp
    moreover have "\<forall>src\<in>set (sourcePointsOf gs pl). getValidMovesForAI gs src avail pl = []"
    proof
      fix src assume s: "src \<in> set (sourcePointsOf gs pl)"
      show "getValidMovesForAI gs src avail pl = []"
      proof (rule ccontr)
        assume "getValidMovesForAI gs src avail pl \<noteq> []"
        then obtain mv where mv: "mv \<in> set (getValidMovesForAI gs src avail pl)"
          by (cases "getValidMovesForAI gs src avail pl") auto
        obtain r where "r \<in> set (generateAllMoveSequences
                       (simulateMove gs src (to_pt mv) (die mv) pl)
                       (remove1 (die mv) avail) pl)"
          using gen_nonempty [of "simulateMove gs src (to_pt mv) (die mv) pl" "remove1 (die mv) avail" pl]
          by (cases "generateAllMoveSequences
                       (simulateMove gs src (to_pt mv) (die mv) pl)
                       (remove1 (die mv) avail) pl") auto
        then have "\<lparr>to_pt = to_pt mv, die = die mv, from_pt = src\<rparr> # r \<in> set ?S"
          using s mv by auto
        with True show False by simp
      qed
    qed
    ultimately show ?thesis by simp
  next
    case False
    with eq have "generateAllMoveSequences gs avail pl = ?S" by (simp only: if_False)
    with assms have "seq \<in> set ?S" by simp
    then obtain src mv rest where "src \<in> set (sourcePointsOf gs pl)"
      "mv \<in> set (getValidMovesForAI gs src avail pl)"
      "rest \<in> set (generateAllMoveSequences
                   (simulateMove gs src (to_pt mv) (die mv) pl) (remove1 (die mv) avail) pl)"
      "seq = \<lparr>to_pt = to_pt mv, die = die mv, from_pt = src\<rparr> # rest"
      by auto
    then show ?thesis using \<open>avail \<noteq> []\<close> by blast
  qed
qed

lemma nonNegative_pointD:
  "nonNegative gs \<Longrightarrow> 1 \<le> i \<Longrightarrow> i \<le> 24 \<Longrightarrow> count (pointAt gs i) \<ge> 0"
  by (auto simp: nonNegative_def list_all_iff)

lemma nonNegative_barD: "nonNegative gs \<Longrightarrow> getP (bar gs) pl \<ge> 0"
  by (auto simp: nonNegative_def getP_def)

lemma nonNegative_setPoint:
  "nonNegative gs \<Longrightarrow> length (board gs) = 25 \<Longrightarrow> 1 \<le> k \<Longrightarrow> k \<le> 24 \<Longrightarrow> count x \<ge> 0
   \<Longrightarrow> nonNegative (setPoint gs k x)"
  by (auto simp: nonNegative_def list_all_iff pointAt_setPoint)

lemma nonNegative_bearoff_update [simp]: "nonNegative (gs\<lparr>bearoff := b\<rparr>) = nonNegative gs"
  by (simp add: nonNegative_def)

lemma nonNegative_liftFrom:
  assumes "nonNegative gs" "length (board gs) = 25" "1 \<le> f" "f \<le> 24" "count (pointAt gs f) \<noteq> 0"
  shows "nonNegative (liftFrom gs f)"
proof -
  have "count (pointAt gs f) \<ge> 0" using assms by (simp add: nonNegative_pointD)
  with assms have pos: "count (pointAt gs f) - 1 \<ge> 0" by simp
  have "count (pointAt (liftFrom gs f) i) \<ge> 0" if "1 \<le> i" "i \<le> 24" for i
    using that assms pos nonNegative_pointD [OF assms(1) that]
    by (simp add: pointAt_liftFrom)
  then show ?thesis using assms(1)
    by (simp add: nonNegative_def list_all_iff)
qed

lemma nonNegative_landOn:
  assumes nn: "nonNegative gs" and len: "length (board gs) = 25" and t: "1 \<le> t" "t \<le> 24"
  shows "nonNegative (landOn gs t pl)"
proof -
  have c: "count (pointAt gs t) \<ge> 0" using nn t by (simp add: nonNegative_pointD)
  have b: "player1 (bar gs) \<ge> 0" "player2 (bar gs) \<ge> 0" using nn by (simp_all add: nonNegative_def)
  have nn1: "nonNegative (gs\<lparr>bar := setP (bar gs) q (getP (bar gs) q + 1)\<rparr>)" for q
    using nn b by (auto simp: nonNegative_def setP_def getP_def)
  show ?thesis
    using nn nn1 len t c
    by (auto simp: landOn_def Let_def pointAt_setPoint intro!: nonNegative_setPoint)
qed

lemma simulateMove_nonNegative:
  assumes sh: "boardShape gs" and nn: "nonNegative gs"
    and src: "validSource src"
    and mv: "mv \<in> set (getValidMovesForAI gs src avail pl)"
  shows "nonNegative (simulateMove gs src (to_pt mv) (die mv) pl)"
proof (cases src)
  case Bar
  from getValid_Bar_D [OF mv [unfolded Bar]] obtain t where
    t: "to_pt mv = To t" "canMoveToPointForAI gs t pl" and b: "getP (bar gs) pl \<noteq> 0" by blast
  have "getP (bar gs) pl \<ge> 0" using nn by (rule nonNegative_barD)
  with b have "getP (bar gs) pl - 1 \<ge> 0" by simp
  then have "nonNegative (gs\<lparr>bar := setP (bar gs) pl (getP (bar gs) pl - 1)\<rparr>)"
    using nn by (auto simp: nonNegative_def setP_def getP_def split: if_splits)
  then show ?thesis using Bar t canMove_range [OF t(2)] boardShape_length [OF sh]
    by (simp add: Let_def nonNegative_landOn)
next
  case (Pt f)
  have f: "1 \<le> f" "f \<le> 24" using src Pt by (simp_all add: validSource_def)
  have len: "length (board gs) = 25" using sh by (rule boardShape_length)
  from getValid_Pt_D [OF mv [unfolded Pt]] have
    c: "count (pointAt gs f) \<noteq> 0"
    and dst: "(to_pt mv = Bearoff \<and> canBearOffForAI gs f (die mv) pl)
            \<or> (\<exists>t. to_pt mv = To t \<and> canMoveToPointForAI gs t pl)" by auto
  have "nonNegative (liftFrom gs f)" using nn len f c by (rule nonNegative_liftFrom)
  with dst show ?thesis
    using Pt f len
    by (auto simp: Let_def nonNegative_landOn dest: canMove_range)
qed

lemma getValid_off_sources:
  assumes nn: "nonNegative gs" and src: "validSource src"
    and notin: "src \<notin> set (sourcePointsOf gs pl)"
  shows "getValidMovesForAI gs src avail pl = []"
proof (cases src)
  case Bar
  with notin have "\<not> getP (bar gs) pl > 0" by (auto simp: sourcePointsOf_def split: if_splits)
  with nonNegative_barD [OF nn, of pl] have "getP (bar gs) pl = 0" by simp
  then show ?thesis using Bar by (simp add: getValidMovesForAI_def)
next
  case (Pt f)
  have f: "1 \<le> f" "f \<le> 24" using src Pt by (simp_all add: validSource_def)
  show ?thesis
  proof (cases "getP (bar gs) pl > 0")
    case True
    then show ?thesis using Pt by (simp add: getValidMovesForAI_def)
  next
    case False
    with notin Pt f have "\<not> occupiedBy gs pl f" by (auto simp: sourcePointsOf_def)
    with nonNegative_pointD [OF nn f] have "player (pointAt gs f) \<noteq> pl \<or> count (pointAt gs f) = 0"
      by (auto simp: occupiedBy_def)
    then show ?thesis using Pt by (auto simp: getValidMovesForAI_def)
  qed
qed

lemma allSources_valid: "src \<in> set allSources \<longleftrightarrow> validSource src"
  by (cases src) (auto simp: allSources_def validSource_def)

lemma noLegalMove_iff:
  "noLegalMove gs avail pl \<longleftrightarrow> (\<forall>src. validSource src \<longrightarrow> getValidMovesForAI gs src avail pl = [])"
  by (auto simp: noLegalMove_def list_all_iff allSources_valid)

lemma gen_maximal:
  "boardShape gs \<Longrightarrow> nonNegative gs \<Longrightarrow> pl = 1 \<or> pl = 2
   \<Longrightarrow> seq \<in> set (generateAllMoveSequences gs avail pl)
   \<Longrightarrow> noLegalMove (applyMoves gs seq pl) (remainingDice avail seq) pl"
proof (induction gs avail pl arbitrary: seq rule: generateAllMoveSequences.induct)
  case (1 gs avail pl)
  note pl = "1.prems"(3)
  from gen_cases [OF "1.prems"(4)] show ?case
  proof (elim disjE conjE exE)
    assume e: "seq = []" and none: "\<forall>src\<in>set (sourcePointsOf gs pl). getValidMovesForAI gs src avail pl = []"
    have "getValidMovesForAI gs src avail pl = []" if "validSource src" for src
      using none getValid_off_sources [OF "1.prems"(2) that] by blast
    then show ?thesis using e by (simp add: noLegalMove_iff)
  next
    fix src mv rest
    assume a: "avail \<noteq> []" "src \<in> set (sourcePointsOf gs pl)"
      "mv \<in> set (getValidMovesForAI gs src avail pl)"
      "seq = \<lparr>to_pt = to_pt mv, die = die mv, from_pt = src\<rparr> # rest"
      "rest \<in> set (generateAllMoveSequences
                   (simulateMove gs src (to_pt mv) (die mv) pl) (remove1 (die mv) avail) pl)"
    have v: "validSource src" using a(2) by (rule sourcePointsOf_valid)
    have "noLegalMove (applyMoves (simulateMove gs src (to_pt mv) (die mv) pl) rest pl)
            (remainingDice (remove1 (die mv) avail) rest) pl"
    proof (rule "1.IH" [OF a(1) _ _ a(3)])
      show "src \<in> set (if 0 < getP (bar gs) pl then [Bar]
                         else map Pt (filter (occupiedBy gs pl) [1..24]))"
        using a(2) by (simp add: sourcePointsOf_def)
      show "(if 0 < getP (bar gs) pl then [Bar]
             else map Pt (filter (occupiedBy gs pl) [1..24])) =
            (if 0 < getP (bar gs) pl then [Bar]
             else map Pt (filter (occupiedBy gs pl) [1..24]))" ..
      show "boardShape (simulateMove gs src (to_pt mv) (die mv) pl)"
        by (rule simulateMove_boardShape [OF "1.prems"(1) pl v a(3)])
      show "nonNegative (simulateMove gs src (to_pt mv) (die mv) pl)"
        by (rule simulateMove_nonNegative [OF "1.prems"(1) "1.prems"(2) v a(3)])
      show "pl = 1 \<or> pl = 2" by (rule pl)
      show "rest \<in> set (generateAllMoveSequences
                   (simulateMove gs src (to_pt mv) (die mv) pl) (remove1 (die mv) avail) pl)"
        by (rule a(5))
    qed
    then show ?thesis using a(4) by simp
  qed
qed

lemma gen_statesAlong:
  "boardShape gs \<Longrightarrow> conservation gs \<Longrightarrow> pl = 1 \<or> pl = 2
   \<Longrightarrow> seq \<in> set (generateAllMoveSequences gs avail pl)
   \<Longrightarrow> s' \<in> set (statesAlong gs seq pl) \<Longrightarrow> conservation s'"
proof (induction gs avail pl arbitrary: seq rule: generateAllMoveSequences.induct)
  case (1 gs avail pl)
  note pl = "1.prems"(3)
  from gen_cases [OF "1.prems"(4)] show ?case
  proof (elim disjE conjE exE)
    assume "seq = []"
    then show ?thesis using "1.prems"(2,5) by simp
  next
    fix src mv rest
    assume a: "avail \<noteq> []" "src \<in> set (sourcePointsOf gs pl)"
      "mv \<in> set (getValidMovesForAI gs src avail pl)"
      "seq = \<lparr>to_pt = to_pt mv, die = die mv, from_pt = src\<rparr> # rest"
      "rest \<in> set (generateAllMoveSequences
                   (simulateMove gs src (to_pt mv) (die mv) pl) (remove1 (die mv) avail) pl)"
    have v: "validSource src" using a(2) by (rule sourcePointsOf_valid)
    show ?thesis
    proof (cases "s' = gs")
      case True
      then show ?thesis using "1.prems"(2) by simp
    next
      case False
      with "1.prems"(5) a(4) have in_rest:
        "s' \<in> set (statesAlong (simulateMove gs src (to_pt mv) (die mv) pl) rest pl)"
        by simp
      show ?thesis
      proof (rule "1.IH" [OF a(1) _ _ a(3)])
        show "src \<in> set (if 0 < getP (bar gs) pl then [Bar]
                           else map Pt (filter (occupiedBy gs pl) [1..24]))"
          using a(2) by (simp add: sourcePointsOf_def)
        show "(if 0 < getP (bar gs) pl then [Bar]
               else map Pt (filter (occupiedBy gs pl) [1..24])) =
              (if 0 < getP (bar gs) pl then [Bar]
               else map Pt (filter (occupiedBy gs pl) [1..24]))" ..
        show "boardShape (simulateMove gs src (to_pt mv) (die mv) pl)"
          by (rule simulateMove_boardShape [OF "1.prems"(1) pl v a(3)])
        show "conservation (simulateMove gs src (to_pt mv) (die mv) pl)"
          by (rule simulateMove_conservation [OF "1.prems"(1) pl v a(3) "1.prems"(2)])
        show "pl = 1 \<or> pl = 2" by (rule pl)
        show "rest \<in> set (generateAllMoveSequences
                     (simulateMove gs src (to_pt mv) (die mv) pl) (remove1 (die mv) avail) pl)"
          by (rule a(5))
        show "s' \<in> set (statesAlong (simulateMove gs src (to_pt mv) (die mv) pl) rest pl)"
          by (rule in_rest)
      qed
    qed
  qed
qed

lemma gen_first_from_bar:
  assumes "getP (bar gs) pl > 0" "seq \<in> set (generateAllMoveSequences gs avail pl)" "seq \<noteq> []"
  shows "from_pt (hd seq) = Bar"
  using gen_cases [OF assms(2)] assms(1,3)
  by (auto simp: sourcePointsOf_def)

lemma gen_pass:
  assumes "noLegalMove gs avail pl"
  shows "generateAllMoveSequences gs avail pl = [[]]"
proof -
  have none: "getValidMovesForAI gs src avail pl = []" if "src \<in> set (sourcePointsOf gs pl)" for src
    using assms sourcePointsOf_valid [OF that] by (simp add: noLegalMove_iff)
  have "seq = []" if "seq \<in> set (generateAllMoveSequences gs avail pl)" for seq
    using gen_cases [OF that] none by auto
  then have "set (generateAllMoveSequences gs avail pl) \<subseteq> {[]}" by auto
  moreover have "generateAllMoveSequences gs avail pl \<noteq> []" by (rule gen_nonempty)
  moreover have "length (generateAllMoveSequences gs avail pl) \<le> 1"
  proof (cases "avail = []")
    case True then show ?thesis by simp
  next
    case False
    then show ?thesis using none
      by (subst generateAllMoveSequences.simps) (simp add: Let_def sourcePointsOf_def)
  qed
  ultimately show ?thesis
    by (cases "generateAllMoveSequences gs avail pl") auto
qed

text \<open>
  \<^bold>\<open>C1.\<close>  Starting from a snapshot with 25 board slots, owner tags in \<open>{0,1,2}\<close> and
  15 checkers per side (board + bar + borne off), every move the oracle offers from a
  source (a point 1..24 or the bar) --- normal move, bar entry or bear-off, with or
  without a hit --- is simulated into a snapshot that again has 15 checkers per side;
  and so has every snapshot the generator passes through along any sequence it returns.
\<close>

theorem simulateMove_preserves_checker_count:
  assumes "boardShape gs" and "conservation gs" and "pl = 1 \<or> pl = 2"
  shows "(\<forall>src mv. validSource src \<and> mv \<in> set (getValidMovesForAI gs src avail pl)
            \<longrightarrow> conservation (simulateMove gs src (to_pt mv) (die mv) pl))
       \<and> (\<forall>seq \<in> set (generateAllMoveSequences gs avail pl).
            \<forall>s' \<in> set (statesAlong gs seq pl). conservation s')"
  using assms simulateMove_conservation gen_statesAlong by blast

theorem simulateMove_preserves_checker_count_witness:
  "boardShape barState \<and> conservation barState
   \<and> conservation (simulateMove barState Bar (To 20) 5 2)
   \<and> conservation (applyMoves barState barEntryThenRun 2)"
proof -
  have sh: "boardShape barState" by code_simp
  have co: "conservation barState" by code_simp
  have v: "validSource Bar" by (simp add: validSource_def)
  have mv: "\<lparr>to_pt = To 20, die = 5\<rparr> \<in> set (getValidMovesForAI barState Bar [3, 5] 2)"
    by code_simp
  have seq: "barEntryThenRun \<in> set (generateAllMoveSequences barState [3, 5] 2)"
    by code_simp
  have st: "applyMoves barState barEntryThenRun 2 \<in> set (statesAlong barState barEntryThenRun 2)"
    by (simp add: barEntryThenRun_def)
  have pl: "(2::nat) = 1 \<or> (2::nat) = 2" by simp
  from simulateMove_preserves_checker_count [OF sh co pl, of "[3, 5]"] v mv seq st
  have "conservation (simulateMove barState Bar (to_pt \<lparr>to_pt = To 20, die = 5\<rparr>) (die \<lparr>to_pt = To 20, die = 5\<rparr>) 2)"
    and "conservation (applyMoves barState barEntryThenRun 2)"
    by blast+
  then show ?thesis using sh co by simp
qed

text \<open>
  \<^bold>\<open>C2.\<close>  On a snapshot with the board shape above and no negative counts, every
  sequence the generator returns is maximal: in the snapshot reached by applying
  it, no die left in the pool has a legal move from the bar or from any point
  1..24.  And whenever no die of the pool has a legal move from any source, the
  generator returns exactly the list holding the empty sequence.
\<close>

theorem generated_sequences_are_maximal:
  assumes "boardShape gs" and "nonNegative gs" and "pl = 1 \<or> pl = 2"
  shows "(\<forall>seq \<in> set (generateAllMoveSequences gs avail pl).
            noLegalMove (applyMoves gs seq pl) (remainingDice avail seq) pl)
       \<and> (noLegalMove gs avail pl \<longrightarrow> generateAllMoveSequences gs avail pl = [[]])"
  using assms gen_maximal gen_pass by blast

theorem generated_sequences_are_maximal_witness:
  "boardShape twoOnBarState \<and> nonNegative twoOnBarState
   \<and> [\<lparr>to_pt = To 20, die = 5, from_pt = Bar\<rparr>]
        \<in> set (generateAllMoveSequences twoOnBarState [3, 5] 2)
   \<and> noLegalMove
        (applyMoves twoOnBarState [\<lparr>to_pt = To 20, die = 5, from_pt = Bar\<rparr>] 2) [3] 2
   \<and> noLegalMove twoOnBarState [3, 3] 2
   \<and> generateAllMoveSequences twoOnBarState [3, 3] 2 = [[]]"
proof -
  have sh: "boardShape twoOnBarState" by code_simp
  have nn: "nonNegative twoOnBarState" by code_simp
  have pl: "(2::nat) = 1 \<or> (2::nat) = 2" by simp
  have seq: "[\<lparr>to_pt = To 20, die = 5, from_pt = Bar\<rparr>]
        \<in> set (generateAllMoveSequences twoOnBarState [3, 5] 2)"
    by code_simp
  have rem: "remainingDice [3, 5] [\<lparr>to_pt = To 20, die = 5, from_pt = Bar\<rparr>] = [3]"
    by simp
  have none: "noLegalMove twoOnBarState [3, 3] 2" by code_simp
  from generated_sequences_are_maximal [OF sh nn pl, of "[3, 5]"] seq rem
  have a: "noLegalMove
        (applyMoves twoOnBarState [\<lparr>to_pt = To 20, die = 5, from_pt = Bar\<rparr>] 2) [3] 2"
    by force
  from generated_sequences_are_maximal [OF sh nn pl, of "[3, 3]"] none
  have b: "generateAllMoveSequences twoOnBarState [3, 3] 2 = [[]]" by blast
  show ?thesis using sh nn seq a none b by simp
qed

text \<open>
  \<^bold>\<open>C3.\<close>  When the mover has a checker on the bar, the oracle offers nothing from
  any point, and every non-empty sequence of the generator starts from the bar.
\<close>

theorem bar_priority:
  assumes "getP (bar gs) pl > 0"
  shows "(\<forall>f. getValidMovesForAI gs (Pt f) avail pl = [])
       \<and> (\<forall>seq \<in> set (generateAllMoveSequences gs avail pl).
            seq \<noteq> [] \<longrightarrow> from_pt (hd seq) = Bar)"
  using assms gen_first_from_bar by (auto simp: getValidMovesForAI_def)

theorem bar_priority_witness:
  "getP (bar barState) 2 > 0
   \<and> getValidMovesForAI barState (Pt 24) [3, 5] 2 = []
   \<and> barEntryThenRun \<in> set (generateAllMoveSequences barState [3, 5] 2)
   \<and> from_pt (hd barEntryThenRun) = Bar"
proof -
  have b: "getP (bar barState) 2 > 0" by code_simp
  have seq: "barEntryThenRun \<in> set (generateAllMoveSequences barState [3, 5] 2)"
    by code_simp
  have ne: "barEntryThenRun \<noteq> []" by (simp add: barEntryThenRun_def)
  from bar_priority [OF b, of "[3, 5]"] seq ne show ?thesis using b by blast
qed

text \<open>The invariant of the loop of \<^verbatim>\<open>evaluatePrimes\<close> after the points
  \<open>1..n\<close>: \<open>cur\<close> is the length of the run of made points that ends at \<open>n\<close>,
  \<open>m\<close> the length of the longest run so far, and \<open>c\<close> is positive exactly when
  some point so far is made.\<close>

lemma prime_loop_invariant:
  fixes made :: "int \<Rightarrow> bool"
  assumes "0 \<le> n"
  shows "case foldl (primeStep made) (0, 0, 0, 0) [1..n] of (m, c, cur, g) \<Rightarrow>
           0 \<le> cur \<and> 0 \<le> c \<and> (1 \<le> cur \<longrightarrow> 1 \<le> c)
         \<and> (\<forall>k\<ge>0. k \<le> cur \<longleftrightarrow> (k \<le> n \<and> (\<forall>j. n - k < j \<and> j \<le> n \<longrightarrow> made j)))
         \<and> (\<forall>k\<ge>1. k \<le> m \<longleftrightarrow> (\<exists>i\<ge>1. i + k - 1 \<le> n \<and> (\<forall>j. i \<le> j \<and> j \<le> i + k - 1 \<longrightarrow> made j)))
         \<and> (1 \<le> c \<longleftrightarrow> (\<exists>i. 1 \<le> i \<and> i \<le> n \<and> made i))"
  using assms
proof (induction n rule: int_ge_induct)
  case base
  show ?case by auto
next
  case (step n)
  obtain m c cur g where st: "foldl (primeStep made) (0, 0, 0, 0) [1..n] = (m, c, cur, g)"
    by (cases "foldl (primeStep made) (0, 0, 0, 0) [1..n]") auto
  have split: "[1..n + 1] = [1..n] @ [n + 1]" using step.hyps by (simp add: upto_rec2)
  from step.IH st have
    nn: "0 \<le> cur" "0 \<le> c" "1 \<le> cur \<longrightarrow> 1 \<le> c"
    and cur: "\<And>k. 0 \<le> k \<Longrightarrow> k \<le> cur \<longleftrightarrow> (k \<le> n \<and> (\<forall>j. n - k < j \<and> j \<le> n \<longrightarrow> made j))"
    and mx: "\<And>k. 1 \<le> k \<Longrightarrow> k \<le> m \<longleftrightarrow> (\<exists>i\<ge>1. i + k - 1 \<le> n \<and> (\<forall>j. i \<le> j \<and> j \<le> i + k - 1 \<longrightarrow> made j))"
    and cn: "1 \<le> c \<longleftrightarrow> (\<exists>i. 1 \<le> i \<and> i \<le> n \<and> made i)"
    by auto
  show ?case
  proof (cases "made (n + 1)")
    case True
    have res: "foldl (primeStep made) (0, 0, 0, 0) [1..n + 1]
             = (max m (cur + 1), (if cur + 1 = 1 then c + 1 else c), cur + 1, g)"
      using True by (simp add: split st primeStep_def)
    have cur': "k \<le> cur + 1 \<longleftrightarrow> (k \<le> n + 1 \<and> (\<forall>j. n + 1 - k < j \<and> j \<le> n + 1 \<longrightarrow> made j))"
      if "0 \<le> k" for k
    proof (cases "k = 0")
      case True
      then show ?thesis using nn step.hyps by auto
    next
      case False
      with that have k1: "0 \<le> k - 1" by simp
      have "k \<le> cur + 1 \<longleftrightarrow> k - 1 \<le> cur" by auto
      also have "\<dots> \<longleftrightarrow> (k - 1 \<le> n \<and> (\<forall>j. n - (k - 1) < j \<and> j \<le> n \<longrightarrow> made j))"
        by (rule cur [OF k1])
      also have "\<dots> \<longleftrightarrow> (k \<le> n + 1 \<and> (\<forall>j. n + 1 - k < j \<and> j \<le> n + 1 \<longrightarrow> made j))"
      proof -
        have "(\<forall>j. n + 1 - k < j \<and> j \<le> n + 1 \<longrightarrow> made j)
              \<longleftrightarrow> (\<forall>j. n - (k - 1) < j \<and> j \<le> n \<longrightarrow> made j)"
        proof
          assume a: "\<forall>j. n + 1 - k < j \<and> j \<le> n + 1 \<longrightarrow> made j"
          show "\<forall>j. n - (k - 1) < j \<and> j \<le> n \<longrightarrow> made j"
            using a by auto
        next
          assume a: "\<forall>j. n - (k - 1) < j \<and> j \<le> n \<longrightarrow> made j"
          show "\<forall>j. n + 1 - k < j \<and> j \<le> n + 1 \<longrightarrow> made j"
          proof (intro allI impI)
            fix j assume "n + 1 - k < j \<and> j \<le> n + 1"
            then show "made j" using a True by (cases "j = n + 1") auto
          qed
        qed
        then show ?thesis by auto
      qed
      finally show ?thesis .
    qed
    have mx': "k \<le> max m (cur + 1)
        \<longleftrightarrow> (\<exists>i\<ge>1. i + k - 1 \<le> n + 1 \<and> (\<forall>j. i \<le> j \<and> j \<le> i + k - 1 \<longrightarrow> made j))"
      if k: "1 \<le> k" for k
    proof
      assume "k \<le> max m (cur + 1)"
      then consider "k \<le> m" | "k \<le> cur + 1" by linarith
      then show "\<exists>i\<ge>1. i + k - 1 \<le> n + 1 \<and> (\<forall>j. i \<le> j \<and> j \<le> i + k - 1 \<longrightarrow> made j)"
      proof cases
        case 1
        with mx [OF k] obtain i where "i \<ge> 1" "i + k - 1 \<le> n"
          "\<forall>j. i \<le> j \<and> j \<le> i + k - 1 \<longrightarrow> made j" by blast
        then show ?thesis by (intro exI [of _ i]) auto
      next
        case 2
        with cur' [of k] k have "k \<le> n + 1" "\<forall>j. n + 1 - k < j \<and> j \<le> n + 1 \<longrightarrow> made j"
          by auto
        then show ?thesis by (intro exI [of _ "n + 2 - k"]) auto
      qed
    next
      assume "\<exists>i\<ge>1. i + k - 1 \<le> n + 1 \<and> (\<forall>j. i \<le> j \<and> j \<le> i + k - 1 \<longrightarrow> made j)"
      then obtain i where i: "i \<ge> 1" "i + k - 1 \<le> n + 1"
        "\<forall>j. i \<le> j \<and> j \<le> i + k - 1 \<longrightarrow> made j" by blast
      show "k \<le> max m (cur + 1)"
      proof (cases "i + k - 1 \<le> n")
        case True
        with i mx [OF k] have "k \<le> m" by blast
        then show ?thesis by simp
      next
        case False
        with i have e: "i + k - 1 = n + 1" by simp
        have "k \<le> n + 1 \<and> (\<forall>j. n + 1 - k < j \<and> j \<le> n + 1 \<longrightarrow> made j)"
          using i e by auto
        with cur' [of k] k have "k \<le> cur + 1" by auto
        then show ?thesis by simp
      qed
    qed
    have cn': "1 \<le> (if cur + 1 = 1 then c + 1 else c) \<longleftrightarrow> (\<exists>i. 1 \<le> i \<and> i \<le> n + 1 \<and> made i)"
    proof -
      have "1 \<le> (if cur + 1 = 1 then c + 1 else c)" using nn by auto
      moreover have "\<exists>i. 1 \<le> i \<and> i \<le> n + 1 \<and> made i"
        using True step.hyps by (intro exI [of _ "n + 1"]) auto
      ultimately show ?thesis by simp
    qed
    have g1: "0 \<le> cur + 1" using nn by simp
    have g2: "0 \<le> (if cur + 1 = 1 then c + 1 else c)" using nn by simp
    have g3: "1 \<le> cur + 1 \<longrightarrow> 1 \<le> (if cur + 1 = 1 then c + 1 else c)" using nn by auto
    have g4: "\<forall>k\<ge>0. k \<le> cur + 1 \<longleftrightarrow> (k \<le> n + 1 \<and> (\<forall>j. n + 1 - k < j \<and> j \<le> n + 1 \<longrightarrow> made j))"
      using cur' by blast
    have g5: "\<forall>k\<ge>1. k \<le> max m (cur + 1)
        \<longleftrightarrow> (\<exists>i\<ge>1. i + k - 1 \<le> n + 1 \<and> (\<forall>j. i \<le> j \<and> j \<le> i + k - 1 \<longrightarrow> made j))"
      using mx' by blast
    show ?thesis
      unfolding res prod.case by (intro conjI g1 g2 g3 g4 g5 cn')
  next
    case False
    have res: "foldl (primeStep made) (0, 0, 0, 0) [1..n + 1]
             = (m, c, 0, (if cur > 0 then g + 1 else g))"
      using False by (simp add: split st primeStep_def)
    have cur': "k \<le> 0 \<longleftrightarrow> (k \<le> n + 1 \<and> (\<forall>j. n + 1 - k < j \<and> j \<le> n + 1 \<longrightarrow> made j))"
      if "0 \<le> k" for k
    proof (cases "k = 0")
      case True
      then show ?thesis using step.hyps by auto
    next
      case k0: False
      have "\<not> (\<forall>j. n + 1 - k < j \<and> j \<le> n + 1 \<longrightarrow> made j)"
        using False that k0 by (auto intro!: exI [of _ "n + 1"])
      then show ?thesis using that k0 by auto
    qed
    have mx': "k \<le> m
        \<longleftrightarrow> (\<exists>i\<ge>1. i + k - 1 \<le> n + 1 \<and> (\<forall>j. i \<le> j \<and> j \<le> i + k - 1 \<longrightarrow> made j))"
      if k: "1 \<le> k" for k
    proof
      assume "k \<le> m"
      with mx [OF k] obtain i where "i \<ge> 1" "i + k - 1 \<le> n"
          "\<forall>j. i \<le> j \<and> j \<le> i + k - 1 \<longrightarrow> made j" by blast
      then show "\<exists>i\<ge>1. i + k - 1 \<le> n + 1 \<and> (\<forall>j. i \<le> j \<and> j \<le> i + k - 1 \<longrightarrow> made j)"
        by (intro exI [of _ i]) auto
    next
      assume "\<exists>i\<ge>1. i + k - 1 \<le> n + 1 \<and> (\<forall>j. i \<le> j \<and> j \<le> i + k - 1 \<longrightarrow> made j)"
      then obtain i where i: "i \<ge> 1" "i + k - 1 \<le> n + 1"
        "\<forall>j. i \<le> j \<and> j \<le> i + k - 1 \<longrightarrow> made j" by blast
      have "i + k - 1 \<noteq> n + 1"
      proof
        assume e: "i + k - 1 = n + 1"
        then have "made (n + 1)" using i k by auto
        with False show False by simp
      qed
      with i have "i + k - 1 \<le> n" by simp
      with i mx [OF k] show "k \<le> m" by blast
    qed
    have cn': "1 \<le> c \<longleftrightarrow> (\<exists>i. 1 \<le> i \<and> i \<le> n + 1 \<and> made i)"
    proof -
      have "(\<exists>i. 1 \<le> i \<and> i \<le> n + 1 \<and> made i) \<longleftrightarrow> (\<exists>i. 1 \<le> i \<and> i \<le> n \<and> made i)"
      proof
        assume "\<exists>i. 1 \<le> i \<and> i \<le> n + 1 \<and> made i"
        then obtain i where i: "1 \<le> i" "i \<le> n + 1" "made i" by blast
        with False have "i \<noteq> n + 1" by auto
        with i show "\<exists>i. 1 \<le> i \<and> i \<le> n \<and> made i" by (intro exI [of _ i]) auto
      next
        assume "\<exists>i. 1 \<le> i \<and> i \<le> n \<and> made i"
        then show "\<exists>i. 1 \<le> i \<and> i \<le> n + 1 \<and> made i" by force
      qed
      with cn show ?thesis by simp
    qed
    have g1: "(0::int) \<le> 0" by simp
    have g3: "(1::int) \<le> 0 \<longrightarrow> 1 \<le> c" by simp
    have g4: "\<forall>k\<ge>0. k \<le> 0 \<longleftrightarrow> (k \<le> n + 1 \<and> (\<forall>j. n + 1 - k < j \<and> j \<le> n + 1 \<longrightarrow> made j))"
      using cur' by blast
    have g5: "\<forall>k\<ge>1. k \<le> m
        \<longleftrightarrow> (\<exists>i\<ge>1. i + k - 1 \<le> n + 1 \<and> (\<forall>j. i \<le> j \<and> j \<le> i + k - 1 \<longrightarrow> made j))"
      using mx' by blast
    show ?thesis
      unfolding res prod.case by (intro conjI g1 nn(2) g3 g4 g5 cn')
  qed
qed

lemma hasRun_iff:
  "hasRun gs pl k \<longleftrightarrow>
     (\<exists>i\<ge>1. i + k - 1 \<le> 24 \<and> (\<forall>j. i \<le> j \<and> j \<le> i + k - 1 \<longrightarrow> madePoint gs pl j))"
proof
  assume "hasRun gs pl k"
  then obtain i where "1 \<le> i" "i \<le> 24 - k + 1" "\<forall>j\<in>{i..i + k - 1}. madePoint gs pl j"
    by (auto simp: hasRun_def list_ex_iff list_all_iff)
  then show "\<exists>i\<ge>1. i + k - 1 \<le> 24 \<and> (\<forall>j. i \<le> j \<and> j \<le> i + k - 1 \<longrightarrow> madePoint gs pl j)"
    by (intro exI [of _ i]) auto
next
  assume "\<exists>i\<ge>1. i + k - 1 \<le> 24 \<and> (\<forall>j. i \<le> j \<and> j \<le> i + k - 1 \<longrightarrow> madePoint gs pl j)"
  then obtain i where "1 \<le> i" "i + k - 1 \<le> 24"
    "\<forall>j. i \<le> j \<and> j \<le> i + k - 1 \<longrightarrow> madePoint gs pl j" by blast
  then have "i \<in> set [1..24 - k + 1]" "list_all (madePoint gs pl) [i..i + k - 1]"
    by (auto simp: list_all_iff)
  then show "hasRun gs pl k"
    unfolding hasRun_def list_ex_iff by blast
qed

lemma evaluatePrimes_length:
  assumes "1 \<le> k"
  shows "k \<le> p_length (evaluatePrimes gs pl) \<longleftrightarrow> hasRun gs pl k"
proof -
  obtain m c cur g where st:
    "foldl (primeStep (madePoint gs pl)) (0, 0, 0, 0) [1..24] = (m, c, cur, g)"
    by (cases "foldl (primeStep (madePoint gs pl)) (0, 0, 0, 0) [1..24]") auto
  from prime_loop_invariant [of 24 "madePoint gs pl"] st assms
  have "k \<le> m \<longleftrightarrow> (\<exists>i\<ge>1. i + k - 1 \<le> 24 \<and> (\<forall>j. i \<le> j \<and> j \<le> i + k - 1 \<longrightarrow> madePoint gs pl j))"
    by simp
  then show ?thesis by (simp add: evaluatePrimes_def st hasRun_iff)
qed

lemma evaluatePrimes_count:
  "1 \<le> p_count (evaluatePrimes gs pl) \<longleftrightarrow> hasRun gs pl 1"
proof -
  obtain m c cur g where st:
    "foldl (primeStep (madePoint gs pl)) (0, 0, 0, 0) [1..24] = (m, c, cur, g)"
    by (cases "foldl (primeStep (madePoint gs pl)) (0, 0, 0, 0) [1..24]") auto
  from prime_loop_invariant [of 24 "madePoint gs pl"] st
  have "1 \<le> c \<longleftrightarrow> (\<exists>i. 1 \<le> i \<and> i \<le> 24 \<and> madePoint gs pl i)"
    by simp
  moreover have "hasRun gs pl 1 \<longleftrightarrow> (\<exists>i. 1 \<le> i \<and> i \<le> 24 \<and> madePoint gs pl i)"
    unfolding hasRun_iff by auto
  ultimately show ?thesis by (simp add: evaluatePrimes_def st)
qed

lemma hasRun_3_1: "hasRun gs pl 3 \<Longrightarrow> hasRun gs pl 1"
  unfolding hasRun_iff
  by (elim exE conjE, rule_tac x = i in exI) auto

lemma blot_loop:
  "foldl (blotStep gs pl) (s, v) xs =
     (s - 30 * int (length (filter (\<lambda>i. isBlot gs pl i \<and> canBeHit gs pl i
                                       \<and> ((pl = 1 \<and> i \<le> 6) \<or> (pl = 2 \<and> i \<ge> 19))) xs))
        - 15 * int (length (filter (\<lambda>i. isBlot gs pl i \<and> canBeHit gs pl i
                                       \<and> \<not> ((pl = 1 \<and> i \<le> 6) \<or> (pl = 2 \<and> i \<ge> 19))) xs))
        - 5 * int (length (filter (\<lambda>i. isBlot gs pl i \<and> \<not> canBeHit gs pl i) xs)),
      v + int (length (filter (\<lambda>i. isBlot gs pl i \<and> canBeHit gs pl i) xs)))"
  by (induction xs arbitrary: s v) (auto simp: blotStep_def)

lemma evaluateBlotSafety_count:
  "b_count (evaluateBlotSafety gs pl)
     = int (length (filter (\<lambda>i. isBlot gs pl i \<and> canBeHit gs pl i) [1..24]))"
  by (simp add: evaluateBlotSafety_def blot_loop)

lemma isPrimingOrBlitzing_BLITZ:
  "isPrimingOrBlitzing gs 2 = BLITZ \<longleftrightarrow>
     (player1 (bar gs) \<ge> 1 \<and> hasRun gs 2 1 \<and> b_count (evaluateBlotSafety gs 2) \<le> 2)"
  by (simp add: isPrimingOrBlitzing_def Let_def getP_def evaluatePrimes_count)

text \<open>The order of the tests is the specification's; the blot count in the BLITZ
  test is the one the blot-safety feature returns.\<close>

lemma detectGamePhase_branches:
  "detectGamePhase gs =
     (if allCheckersInHomeBoardForAI gs 1 \<and> allCheckersInHomeBoardForAI gs 2 then RACE
      else if \<bar>calculatePipCount gs 1 - calculatePipCount gs 2\<bar> > 30 then BACKGAME
      else if hasRun gs 1 3 \<and> hasRun gs 2 3 then PRIMING
      else if player1 (bar gs) \<ge> 1 \<and> hasRun gs 2 1
              \<and> b_count (evaluateBlotSafety gs 2) \<le> 2 then BLITZ
      else CONTACT)"
proof -
  have three: "3 \<le> p_length (evaluatePrimes gs pl) \<longleftrightarrow> hasRun gs pl 3" for pl
    by (rule evaluatePrimes_length) simp
  have priming:
    "(1 \<le> p_count (evaluatePrimes gs 2) \<and> 1 \<le> p_count (evaluatePrimes gs 1)
      \<and> 3 \<le> p_length (evaluatePrimes gs 2) \<and> 3 \<le> p_length (evaluatePrimes gs 1))
     \<longleftrightarrow> (hasRun gs 1 3 \<and> hasRun gs 2 3)"
    using hasRun_3_1 [of gs 1] hasRun_3_1 [of gs 2]
    by (auto simp: three evaluatePrimes_count)
  show ?thesis
    unfolding detectGamePhase_def Let_def priming isPrimingOrBlitzing_BLITZ
    by (rule refl)
qed

text \<open>So phase detection follows the specification wherever the feature's count is
  the number of blots that can really be reached.\<close>

lemma detectGamePhase_when_counts_agree:
  assumes "b_count (evaluateBlotSafety gs 2) = int (length (vulnerableBlots gs 2))"
  shows "detectGamePhase gs = phaseBySpec gs"
  unfolding detectGamePhase_branches phaseBySpec_def assms by (rule refl)

text \<open>
  \<^bold>\<open>C5 fails on the code.\<close>  \<open>blitzState\<close> is a position with 15 checkers a side.
  Neither side is fully home, the pip counts differ by 3, and player 1 holds no
  three consecutive points, so the first three tests fail.  Player 1 has a checker
  on the bar and player 2 holds made points.  Player 2's lone checkers on 2, 3 and
  4 are each within one roll of the checker on the bar (the oracle offers player 1
  the entry on each of them, see below): player 2 has three vulnerable blots, and
  the classification of the specification is CONTACT.  The blot-safety feature measures
  the distance on the far side of the blot and to the fixed entry point 1, counts
  no vulnerable blot, and phase detection answers BLITZ.
\<close>

theorem detectGamePhase_blitz_despite_three_vulnerable_blots:
  "boardShape blitzState \<and> nonNegative blitzState \<and> conservation blitzState
   \<and> \<not> (allCheckersInHomeBoardForAI blitzState 1 \<and> allCheckersInHomeBoardForAI blitzState 2)
   \<and> \<bar>calculatePipCount blitzState 1 - calculatePipCount blitzState 2\<bar> = 3
   \<and> \<not> hasRun blitzState 1 3
   \<and> player1 (bar blitzState) = 1 \<and> hasRun blitzState 2 1
   \<and> vulnerableBlots blitzState 2 = [2, 3, 4]
   \<and> evaluateBlotSafety blitzState 2 = \<lparr>b_count = 0, b_score = - 15\<rparr>
   \<and> phaseBySpec blitzState = CONTACT
   \<and> detectGamePhase blitzState = BLITZ"
  by code_simp

lemma blitzState_blots_can_be_hit:
  "\<lparr>to_pt = To 2, die = 2\<rparr> \<in> set (getValidMovesForAI blitzState Bar [2] 1)
   \<and> \<lparr>to_pt = To 3, die = 3\<rparr> \<in> set (getValidMovesForAI blitzState Bar [3] 1)
   \<and> \<lparr>to_pt = To 4, die = 4\<rparr> \<in> set (getValidMovesForAI blitzState Bar [4] 1)
   \<and> player (pointAt (simulateMove blitzState Bar (To 2) 2 1) 2) = 1
   \<and> player2 (bar (simulateMove blitzState Bar (To 2) 2 1)) = 1"
  by code_simp

lemma onBoard_split:
  assumes "pl = 1 \<or> pl = 2"
  shows "onBoard gs pl = homeCount gs pl
           + sum_list (map (\<lambda>i. contrib (pointAt gs i) pl) (outsidePoints pl))"
proof -
  have a: "[1..24::int] = [1..18] @ [19..24]" using upto_split2 [of 1 18 24] by simp
  have b: "[1..24::int] = [1..6] @ [7..24]" using upto_split2 [of 1 6 24] by simp
  from assms show ?thesis
  proof
    assume "pl = 1"
    then show ?thesis
      unfolding onBoard_def homeCount_def homePoints_def outsidePoints_def
      by (subst a) simp
  next
    assume "pl = 2"
    then show ?thesis
      unfolding onBoard_def homeCount_def homePoints_def outsidePoints_def
      by (subst b) simp
  qed
qed

lemma outside_sum_zero:
  assumes nn: "nonNegative gs" and pl: "pl = 1 \<or> pl = 2"
  shows "sum_list (map (\<lambda>i. contrib (pointAt gs i) pl) (outsidePoints pl)) = 0
         \<longleftrightarrow> \<not> list_ex (occupiedBy gs pl) (outsidePoints pl)"
proof -
  have rng: "1 \<le> i \<and> i \<le> 24" if "i \<in> set (outsidePoints pl)" for i
    using that by (auto simp: outsidePoints_def split: if_splits)
  have c: "0 \<le> count (pointAt gs i)" if "i \<in> set (outsidePoints pl)" for i
    using nonNegative_pointD [OF nn] rng [OF that] by blast
  have "sum_list (map (\<lambda>i. contrib (pointAt gs i) pl) (outsidePoints pl)) = 0
        \<longleftrightarrow> (\<forall>x\<in>set (map (\<lambda>i. contrib (pointAt gs i) pl) (outsidePoints pl)). x = 0)"
    by (rule sum_list_nonneg_eq_0_iff) (use c in \<open>auto simp: contrib_def\<close>)
  also have "\<dots> \<longleftrightarrow> (\<forall>i\<in>set (outsidePoints pl). \<not> occupiedBy gs pl i)"
  proof -
    have "contrib (pointAt gs i) pl = 0 \<longleftrightarrow> \<not> occupiedBy gs pl i"
      if "i \<in> set (outsidePoints pl)" for i
      using c [OF that] by (auto simp: contrib_def occupiedBy_def)
    then show ?thesis by simp
  qed
  finally show ?thesis by (simp add: list_ex_iff)
qed

lemma allHome_iff:
  assumes nn: "nonNegative gs" and tot: "total gs pl = 15" and pl: "pl = 1 \<or> pl = 2"
  shows "allCheckersInHomeBoardForAI gs pl
         \<longleftrightarrow> (homeCount gs pl + getP (bearoff gs) pl = 15 \<and> getP (bar gs) pl = 0)"
proof -
  have b: "0 \<le> getP (bar gs) pl" using nn by (rule nonNegative_barD)
  have o: "0 \<le> sum_list (map (\<lambda>i. contrib (pointAt gs i) pl) (outsidePoints pl))"
  proof (rule sum_list_nonneg)
    fix x assume "x \<in> set (map (\<lambda>i. contrib (pointAt gs i) pl) (outsidePoints pl))"
    then obtain i where i: "i \<in> set (outsidePoints pl)" "x = contrib (pointAt gs i) pl" by auto
    then have "1 \<le> i \<and> i \<le> 24" by (auto simp: outsidePoints_def split: if_splits)
    with nonNegative_pointD [OF nn] i show "0 \<le> x" by (auto simp: contrib_def)
  qed
  have code: "allCheckersInHomeBoardForAI gs pl
        \<longleftrightarrow> (\<not> getP (bar gs) pl > 0 \<and> \<not> list_ex (occupiedBy gs pl) (outsidePoints pl))"
    using pl by (auto simp only: allCheckersInHomeBoardForAI_def outsidePoints_def split: if_splits)
  have sum: "homeCount gs pl
           + sum_list (map (\<lambda>i. contrib (pointAt gs i) pl) (outsidePoints pl))
           + getP (bar gs) pl + getP (bearoff gs) pl = 15"
    using tot onBoard_split [OF pl, of gs] by (simp add: total_def)
  show ?thesis
    unfolding code outside_sum_zero [OF nn pl, symmetric]
    using b o sum by auto
qed

lemma behind_iff:
  assumes home: "allCheckersInHomeBoardForAI gs pl" and pl: "pl = 1 \<or> pl = 2"
  shows "(if pl = 1 then \<not> list_ex (occupiedBy gs 1) (rev [19..src - 1])
          else \<not> list_ex (occupiedBy gs 2) [src + 1..6])
         \<longleftrightarrow> \<not> list_ex (occupiedBy gs pl) (pointsBehind pl src)"
proof -
  from home have "\<not> list_ex (occupiedBy gs pl) (outsidePoints pl)"
    using pl by (auto simp only: allCheckersInHomeBoardForAI_def outsidePoints_def split: if_splits)
  then have out: "\<not> occupiedBy gs pl i" if "i \<in> set (outsidePoints pl)" for i
    using that unfolding list_ex_iff by blast
  have out1: "set (outsidePoints 1) = {1..18}" "set (outsidePoints 2) = {7..24}"
    by (simp_all add: outsidePoints_def)
  from pl show ?thesis
  proof
    assume p: "pl = 1"
    have "(\<exists>i\<in>{19..src - 1}. occupiedBy gs 1 i) \<longleftrightarrow> (\<exists>i\<in>{1..src - 1}. occupiedBy gs 1 i)"
    proof
      assume "\<exists>i\<in>{19..src - 1}. occupiedBy gs 1 i"
      then show "\<exists>i\<in>{1..src - 1}. occupiedBy gs 1 i" by force
    next
      assume "\<exists>i\<in>{1..src - 1}. occupiedBy gs 1 i"
      then obtain i where i: "1 \<le> i" "i \<le> src - 1" "occupiedBy gs 1 i" by auto
      have "i \<notin> {1..18}" using out [of i] i p out1 by blast
      with i have "\<not> i \<le> 18" by simp
      with i show "\<exists>i\<in>{19..src - 1}. occupiedBy gs 1 i" by force
    qed
    then show ?thesis using p by (simp add: pointsBehind_def list_ex_iff)
  next
    assume p: "pl = 2"
    have "(\<exists>i\<in>{src + 1..6}. occupiedBy gs 2 i) \<longleftrightarrow> (\<exists>i\<in>{src + 1..24}. occupiedBy gs 2 i)"
    proof
      assume "\<exists>i\<in>{src + 1..6}. occupiedBy gs 2 i"
      then show "\<exists>i\<in>{src + 1..24}. occupiedBy gs 2 i" by force
    next
      assume "\<exists>i\<in>{src + 1..24}. occupiedBy gs 2 i"
      then obtain i where i: "src + 1 \<le> i" "i \<le> 24" "occupiedBy gs 2 i" by auto
      have "i \<notin> {7..24}" using out [of i] i p out1 by blast
      with i have "\<not> 7 \<le> i" by simp
      with i show "\<exists>i\<in>{src + 1..6}. occupiedBy gs 2 i" by force
    qed
    then show ?thesis using p by (simp add: pointsBehind_def list_ex_iff)
  qed
qed

lemma canBearOff_iff:
  assumes nn: "nonNegative gs" and tot: "total gs pl = 15" and pl: "pl = 1 \<or> pl = 2"
  shows "canBearOffForAI gs src d pl \<longleftrightarrow> bearOffLegal gs src d pl"
proof (cases "allCheckersInHomeBoardForAI gs pl")
  case False
  then have "\<not> canBearOffForAI gs src d pl" by (simp add: canBearOffForAI_def)
  moreover have "\<not> bearOffLegal gs src d pl"
    using False allHome_iff [OF nn tot pl] unfolding bearOffLegal_def by blast
  ultimately show ?thesis by simp
next
  case True
  note beh = behind_iff [OF True pl, of src]
  have h: "homeCount gs pl + getP (bearoff gs) pl = 15 \<and> getP (bar gs) pl = 0"
    using True allHome_iff [OF nn tot pl] by simp
  have c: "canBearOffForAI gs src d pl \<longleftrightarrow>
       (let toPoint = (if pl = 1 then src + d else src - d) in
          (pl = 1 \<and> toPoint = 25) \<or> (pl = 2 \<and> toPoint = 0)
          \<or> (((pl = 1 \<and> toPoint > 25) \<or> (pl = 2 \<and> toPoint < 0))
              \<and> \<not> list_ex (occupiedBy gs pl) (pointsBehind pl src)))"
    unfolding canBearOffForAI_def beh using True by (simp add: Let_def)
  have s: "bearOffLegal gs src d pl \<longleftrightarrow>
       (let dst = (if pl = 1 then src + d else src - d);
            exact = (if pl = 1 then dst = 25 else dst = 0);
            overshoot = (if pl = 1 then dst > 25 else dst < 0)
        in exact \<or> (overshoot \<and> \<not> list_ex (occupiedBy gs pl) (pointsBehind pl src)))"
    unfolding bearOffLegal_def using h by simp
  from pl show ?thesis
  proof
    assume p: "pl = 1"
    show ?thesis unfolding c s by (simp add: p Let_def)
  next
    assume p: "pl = 2"
    show ?thesis unfolding c s by (simp add: p Let_def)
  qed
qed

lemma oracle_bearoff_iff:
  assumes occ: "occupiedBy gs pl src" and pl: "pl = 1 \<or> pl = 2"
  shows "\<lparr>to_pt = Bearoff, die = d\<rparr> \<in> set (getValidMovesForAI gs (Pt src) [d] pl)
         \<longleftrightarrow> canBearOffForAI gs src d pl"
proof (cases "canBearOffForAI gs src d pl")
  case False
  then show ?thesis
    by (auto simp: getValidMovesForAI_def Let_def split: if_splits)
next
  case True
  then have home: "allCheckersInHomeBoardForAI gs pl"
    and dst: "(pl = 1 \<and> src + d \<ge> 25) \<or> (pl = 2 \<and> src - d \<le> 0)"
    using pl by (auto simp: canBearOffForAI_def Let_def split: if_splits)
  from home have "\<not> getP (bar gs) pl > 0"
    by (auto simp: allCheckersInHomeBoardForAI_def split: if_splits)
  with True dst occ pl show ?thesis
    by (auto simp: getValidMovesForAI_def Let_def occupiedBy_def)
qed

text \<open>
  \<^bold>\<open>C4.\<close>  On a snapshot without negative counts in which the mover's checkers
  number 15, the bear-off test succeeds exactly when the mover's home board and
  tray together hold all 15 checkers with none on the bar, and the die either
  reaches the exit exactly or overshoots while no checker of the mover stands on a
  point further from home than the source.  For a source that holds a checker of
  the mover, the oracle offers the bear-off under exactly the same condition.
\<close>

theorem bear_off_legality:
  assumes "boardShape gs" and "nonNegative gs" and "total gs pl = 15"
    and "pl = 1 \<or> pl = 2" and "1 \<le> src" and "src \<le> 24"
  shows "(canBearOffForAI gs src d pl \<longleftrightarrow> bearOffLegal gs src d pl)
       \<and> (occupiedBy gs pl src \<longrightarrow>
            (\<lparr>to_pt = Bearoff, die = d\<rparr> \<in> set (getValidMovesForAI gs (Pt src) [d] pl)
             \<longleftrightarrow> bearOffLegal gs src d pl))"
  using assms canBearOff_iff [of gs pl src d] oracle_bearoff_iff [of gs pl src d] by blast

theorem bear_off_legality_witness:
  "boardShape bearOffState \<and> nonNegative bearOffState \<and> total bearOffState 2 = 15
   \<and> occupiedBy bearOffState 2 3 \<and> occupiedBy bearOffState 2 2
   \<and> bearOffLegal bearOffState 3 6 2
   \<and> \<lparr>to_pt = Bearoff, die = 6\<rparr> \<in> set (getValidMovesForAI bearOffState (Pt 3) [6] 2)
   \<and> \<not> bearOffLegal bearOffState 2 6 2
   \<and> \<lparr>to_pt = Bearoff, die = 6\<rparr> \<notin> set (getValidMovesForAI bearOffState (Pt 2) [6] 2)"
proof -
  have sh: "boardShape bearOffState" by code_simp
  have nn: "nonNegative bearOffState" by code_simp
  have tot: "total bearOffState 2 = 15" by code_simp
  have pl: "(2::nat) = 1 \<or> (2::nat) = 2" by simp
  have o3: "occupiedBy bearOffState 2 3" by code_simp
  have o2: "occupiedBy bearOffState 2 2" by code_simp
  have l3: "bearOffLegal bearOffState 3 6 2" by code_simp
  have l2: "\<not> bearOffLegal bearOffState 2 6 2" by code_simp
  from bear_off_legality [OF sh nn tot pl, of 3 6] o3 l3
  have a: "\<lparr>to_pt = Bearoff, die = 6\<rparr> \<in> set (getValidMovesForAI bearOffState (Pt 3) [6] 2)"
    by simp
  from bear_off_legality [OF sh nn tot pl, of 2 6] o2 l2
  have b: "\<lparr>to_pt = Bearoff, die = 6\<rparr> \<notin> set (getValidMovesForAI bearOffState (Pt 2) [6] 2)"
    by simp
  show ?thesis using sh nn tot o3 o2 l3 l2 a b by simp
qed

text \<open>
  \<^bold>\<open>C9, as the code has it.\<close>  Every lone checker of a side is penalised once:
  30 when the feature classifies it as vulnerable and it stands in the
  \<^emph>\<open>opponent's\<close> home board, 15 when it is classified vulnerable elsewhere, and 5
  when it is not classified vulnerable; the count returned is the number of blots
  classified vulnerable.
\<close>

theorem blot_safety_penalties:
  assumes "pl = 1 \<or> pl = 2"
  shows "b_score (evaluateBlotSafety gs pl) =
           - (30 * int (length (filter (\<lambda>i. isBlot gs pl i \<and> canBeHit gs pl i
                                            \<and> inOpponentHome pl i) [1..24]))
              + 15 * int (length (filter (\<lambda>i. isBlot gs pl i \<and> canBeHit gs pl i
                                            \<and> \<not> inOpponentHome pl i) [1..24]))
              + 5 * int (length (filter (\<lambda>i. isBlot gs pl i \<and> \<not> canBeHit gs pl i) [1..24])))
       \<and> b_count (evaluateBlotSafety gs pl) =
           int (length (filter (\<lambda>i. isBlot gs pl i \<and> canBeHit gs pl i) [1..24]))"
proof -
  have loc: "((pl = 1 \<and> i \<le> 6) \<or> (pl = 2 \<and> i \<ge> 19)) \<longleftrightarrow> inOpponentHome pl i"
    if "i \<in> set [1..24]" for i
    using that assms by (auto simp: inOpponentHome_def homePoints_def)
  have f1: "filter (\<lambda>i. isBlot gs pl i \<and> canBeHit gs pl i
                        \<and> ((pl = 1 \<and> i \<le> 6) \<or> (pl = 2 \<and> i \<ge> 19))) [1..24]
          = filter (\<lambda>i. isBlot gs pl i \<and> canBeHit gs pl i \<and> inOpponentHome pl i) [1..24]"
    by (rule filter_cong [OF refl]) (use loc in blast)
  have f2: "filter (\<lambda>i. isBlot gs pl i \<and> canBeHit gs pl i
                        \<and> \<not> ((pl = 1 \<and> i \<le> 6) \<or> (pl = 2 \<and> i \<ge> 19))) [1..24]
          = filter (\<lambda>i. isBlot gs pl i \<and> canBeHit gs pl i \<and> \<not> inOpponentHome pl i) [1..24]"
    by (rule filter_cong [OF refl]) (use loc in blast)
  show ?thesis
    unfolding evaluateBlotSafety_def blot_loop f1 f2 by simp
qed

theorem blot_safety_penalties_witness:
  "b_score (evaluateBlotSafety twoBlotsState 2) = - 45
   \<and> b_count (evaluateBlotSafety twoBlotsState 2) = 2"
proof -
  have pl: "(2::nat) = 1 \<or> (2::nat) = 2" by simp
  have a: "filter (\<lambda>i. isBlot twoBlotsState 2 i \<and> canBeHit twoBlotsState 2 i
                        \<and> inOpponentHome 2 i) [1..24] = [20]" by code_simp
  have b: "filter (\<lambda>i. isBlot twoBlotsState 2 i \<and> canBeHit twoBlotsState 2 i
                        \<and> \<not> inOpponentHome 2 i) [1..24] = [3]" by code_simp
  have c: "filter (\<lambda>i. isBlot twoBlotsState 2 i \<and> \<not> canBeHit twoBlotsState 2 i) [1..24] = []"
    by code_simp
  have d: "filter (\<lambda>i. isBlot twoBlotsState 2 i \<and> canBeHit twoBlotsState 2 i) [1..24] = [3, 20]"
    by code_simp
  from blot_safety_penalties [OF pl, of twoBlotsState] show ?thesis
    unfolding a b c d by simp
qed

text \<open>
  \<^bold>\<open>C9, as stated, fails.\<close>  In \<open>twoBlotsState\<close> player 2's lone checker on point 3
  stands in player 2's own home board and player 1 can hit it with a 2 from
  point 1; its lone checker on point 20 stands outside its home board and
  player 1 can hit it with a 1 from point 19.  Both are classified vulnerable.
  The loop body charges 15 for the first and 30 for the second: the blot inside the
  owner's home board does not receive the largest penalty.
\<close>

theorem blot_penalty_counterexample:
  "isBlot twoBlotsState 2 3 \<and> 3 \<in> set (homePoints 2) \<and> canBeHit twoBlotsState 2 3
   \<and> \<lparr>to_pt = To 3, die = 2\<rparr> \<in> set (getValidMovesForAI twoBlotsState (Pt 1) [2] 1)
   \<and> blotStep twoBlotsState 2 (0, 0) 3 = (- 15, 1)
   \<and> isBlot twoBlotsState 2 20 \<and> 20 \<notin> set (homePoints 2) \<and> canBeHit twoBlotsState 2 20
   \<and> \<lparr>to_pt = To 20, die = 1\<rparr> \<in> set (getValidMovesForAI twoBlotsState (Pt 19) [1] 1)
   \<and> blotStep twoBlotsState 2 (0, 0) 20 = (- 30, 1)"
  by code_simp

text \<open>The classification itself looks for opponent checkers on the wrong side of the
  blot: in \<open>directShotState\<close> player 2 hits the lone checker on point 10 with a 2
  from point 12, yet the feature counts no vulnerable blot for player 1; and a
  checker on the bar never makes a blot vulnerable, because the distance to the
  fixed entry point 1 or 24 is never positive.\<close>

lemma canBeHit_misses_direct_shot:
  "isBlot directShotState 1 10
   \<and> \<lparr>to_pt = To 10, die = 2\<rparr> \<in> set (getValidMovesForAI directShotState (Pt 12) [2] 2)
   \<and> \<not> canBeHit directShotState 1 10
   \<and> evaluateBlotSafety directShotState 1 = \<lparr>b_count = 0, b_score = - 5\<rparr>"
  by code_simp

lemma canBeHit_ignores_bar:
  assumes "1 \<le> i" and "i \<le> 24"
  shows "canBeHit gs pl i \<longleftrightarrow>
           list_ex (\<lambda>j. player (pointAt gs j) = (if pl = 1 then 2 else 1) \<and> count (pointAt gs j) > 0
                  \<and> (if pl = 1 then 0 < i - j \<and> i - j \<le> 6 else 0 < j - i \<and> j - i \<le> 6)) [1..24]"
  using assms by (auto simp: canBeHit_def Let_def)

lemma waivableFilter_length:
  "(let kept = filter (\<lambda>x. \<not> V x) xs in if length kept > 0 then kept else xs) = waivableFilter V xs"
proof (cases "list_all V xs")
  case True
  then have "filter (\<lambda>x. \<not> V x) xs = []" by (simp add: list_all_iff filter_empty_conv)
  with True show ?thesis by (simp add: waivableFilter_def)
next
  case False
  then have "filter (\<lambda>x. \<not> V x) xs \<noteq> []" by (simp add: list_all_iff filter_empty_conv)
  with False show ?thesis by (simp add: waivableFilter_def Let_def)
qed

lemma waivableFilter_never: "(\<And>x. \<not> V x) \<Longrightarrow> waivableFilter V xs = xs"
  by (simp add: waivableFilter_def list_all_iff)

lemma waivableFilter_nonempty: "xs \<noteq> [] \<Longrightarrow> waivableFilter V xs \<noteq> []"
  by (auto simp: waivableFilter_def list_all_iff filter_empty_conv)

lemma safety_is_waivable:
  "enforcePlayer2HomeBoardSafety gs seqs pl
   = waivableFilter (\<lambda>s. sequenceLeavesPlayer2HomeBoardBlot gs s pl) seqs"
proof (cases "pl = 2")
  case True
  then show ?thesis
    unfolding enforcePlayer2HomeBoardSafety_def by (simp only: waivableFilter_length) simp
next
  case False
  then have "\<not> sequenceLeavesPlayer2HomeBoardBlot gs s pl" for s
    by (simp add: sequenceLeavesPlayer2HomeBoardBlot_def)
  then show ?thesis using False
    by (simp add: enforcePlayer2HomeBoardSafety_def waivableFilter_never)
qed

lemma stack_is_waivable:
  "enforceStackLimitOnPoints2And1 gs seqs pl
   = waivableFilter (\<lambda>s. sequenceExceedsStackLimit gs s pl) seqs"
proof (cases "pl = 2")
  case True
  then show ?thesis
    unfolding enforceStackLimitOnPoints2And1_def by (simp only: waivableFilter_length) simp
next
  case False
  then have "\<not> sequenceExceedsStackLimit gs s pl" for s
    by (simp add: sequenceExceedsStackLimit_def)
  then show ?thesis using False
    by (simp add: enforceStackLimitOnPoints2And1_def waivableFilter_never)
qed

lemma distribution_is_waivable:
  "enforceDistribution gs seqs pl
   = waivableFilter (\<lambda>s. sequenceExceedsDistributionLimit gs s pl) seqs"
proof (cases "pl = 2")
  case True
  then show ?thesis
    unfolding enforceDistribution_def by (simp only: waivableFilter_length) simp
next
  case False
  then have "\<not> sequenceExceedsDistributionLimit gs s pl" for s
    by (simp add: sequenceExceedsDistributionLimit_def)
  then show ?thesis using False
    by (simp add: enforceDistribution_def waivableFilter_never)
qed

lemma outside_is_waivable:
  "enforcePlayCheckersOutsideHomeBoard gs seqs pl = waivableFilter (staysInsideHome gs pl) seqs"
proof (cases "pl = 2 \<and> countMadePointsInHomeBoard gs pl > 2")
  case True
  then have p: "pl = 2" and c: "countMadePointsInHomeBoard gs 2 > 2" by auto
  have v: "staysInsideHome gs 2 = (\<lambda>s. \<not> sequenceUsesCheckersOutsideHomeBoard s 2)"
    using c by (simp add: staysInsideHome_def fun_eq_iff)
  have "enforcePlayCheckersOutsideHomeBoard gs seqs 2
        = (let kept = filter (\<lambda>s. \<not> \<not> sequenceUsesCheckersOutsideHomeBoard s 2) seqs
           in if length kept > 0 then kept else seqs)"
    using c by (simp add: enforcePlayCheckersOutsideHomeBoard_def Let_def)
  then show ?thesis unfolding p v by (simp only: waivableFilter_length)
next
  case False
  then have "\<not> staysInsideHome gs pl s" for s
    by (auto simp: staysInsideHome_def countMadePointsInHomeBoard_def)
  then have "waivableFilter (staysInsideHome gs pl) seqs = seqs"
    by (rule waivableFilter_never)
  moreover have "enforcePlayCheckersOutsideHomeBoard gs seqs pl = seqs"
    using False by (auto simp: enforcePlayCheckersOutsideHomeBoard_def Let_def
        countMadePointsInHomeBoard_def)
  ultimately show ?thesis by simp
qed

text \<open>
  \<^bold>\<open>C7.\<close>  Each of the four strategic filters is the waivable filter of its
  constraint: it drops exactly the candidates that violate the constraint and keeps
  the order of the others, and when every candidate violates it returns the list it
  was given.  Hence the pipeline of the four never empties a non-empty candidate list.
\<close>

theorem strategic_filters_are_waivable:
  "(\<forall>(F, V) \<in> set strategicFilters. F gs seqs pl = waivableFilter (V gs pl) seqs)
   \<and> (seqs \<noteq> [] \<longrightarrow> safeSequencesOf gs seqs pl \<noteq> [])"
proof
  show "\<forall>(F, V) \<in> set strategicFilters. F gs seqs pl = waivableFilter (V gs pl) seqs"
    by (simp add: strategicFilters_def safety_is_waivable stack_is_waivable
        distribution_is_waivable outside_is_waivable)
  show "seqs \<noteq> [] \<longrightarrow> safeSequencesOf gs seqs pl \<noteq> []"
    unfolding safeSequencesOf_def safety_is_waivable stack_is_waivable
      distribution_is_waivable outside_is_waivable
    by (intro impI waivableFilter_nonempty)
qed

theorem strategic_filters_are_waivable_witness:
  "generateAllMoveSequences crowdedHomeState [2, 1] 2 \<noteq> []
   \<and> safeSequencesOf crowdedHomeState (generateAllMoveSequences crowdedHomeState [2, 1] 2) 2 \<noteq> []
   \<and> (enforceStackLimitOnPoints2And1, \<lambda>gs pl s. sequenceExceedsStackLimit gs s pl)
        \<in> set strategicFilters
   \<and> sequenceExceedsStackLimit crowdedHomeState stackingSequence 2
   \<and> enforceStackLimitOnPoints2And1 crowdedHomeState [stackingSequence] 2 = [stackingSequence]"
proof -
  have ne: "generateAllMoveSequences crowdedHomeState [2, 1] 2 \<noteq> []" by (rule gen_nonempty)
  have m: "(enforceStackLimitOnPoints2And1, \<lambda>gs pl s. sequenceExceedsStackLimit gs s pl)
        \<in> set strategicFilters"
    by (simp add: strategicFilters_def)
  have v: "sequenceExceedsStackLimit crowdedHomeState stackingSequence 2" by code_simp
  from strategic_filters_are_waivable
        [of crowdedHomeState "generateAllMoveSequences crowdedHomeState [2, 1] 2" 2] ne
  have a: "safeSequencesOf crowdedHomeState
             (generateAllMoveSequences crowdedHomeState [2, 1] 2) 2 \<noteq> []"
    by blast
  from strategic_filters_are_waivable [of crowdedHomeState "[stackingSequence]" 2]
  have "\<forall>(F, V) \<in> set strategicFilters.
          F crowdedHomeState [stackingSequence] 2
          = waivableFilter (V crowdedHomeState 2) [stackingSequence]"
    by (rule conjunct1)
  from bspec [OF this m]
  have "enforceStackLimitOnPoints2And1 crowdedHomeState [stackingSequence] 2
        = waivableFilter (\<lambda>s. sequenceExceedsStackLimit crowdedHomeState s 2) [stackingSequence]"
    by simp
  with v have b: "enforceStackLimitOnPoints2And1 crowdedHomeState [stackingSequence] 2
        = [stackingSequence]"
    by (simp add: waivableFilter_def)
  show ?thesis using ne a m v b by simp
qed

subsection \<open>The cache key determines the position\<close>

lemma digitChar_not_dash: "d < 10 \<Longrightarrow> digitChar d \<noteq> CHR ''-''"
proof -
  assume "d < 10"
  then have "digitChar d \<in> set ''0123456789''"
    unfolding digitChar_def by (intro nth_mem) simp
  then show ?thesis by auto
qed

lemma digitChar_inj: "d < 10 \<Longrightarrow> e < 10 \<Longrightarrow> digitChar d = digitChar e \<Longrightarrow> d = e"
proof -
  assume d: "d < 10" and e: "e < 10" and eq: "digitChar d = digitChar e"
  have "distinct ''0123456789''" by simp
  from nth_eq_iff_index_eq [OF this, of d e] d e eq show ?thesis
    by (simp add: digitChar_def)
qed

declare showNat.simps [simp del]

lemma showNat_nonempty: "showNat n \<noteq> []"
  by (subst showNat.simps) simp

lemma showNat_dashfree: "CHR ''-'' \<notin> set (showNat n)"
proof (induction n rule: showNat.induct)
  case (1 n)
  show ?case
  proof (cases "n < 10")
    case True
    then show ?thesis using digitChar_not_dash [of n]
      by (subst showNat.simps) auto
  next
    case False
    then show ?thesis using "1.IH" digitChar_not_dash [of "n mod 10"]
      by (subst showNat.simps) auto
  qed
qed

lemma showNat_inj: "showNat n = showNat m \<Longrightarrow> n = m"
proof (induction n arbitrary: m rule: showNat.induct)
  case (1 n)
  show ?case
  proof (cases "n < 10")
    case n: True
    show ?thesis
    proof (cases "m < 10")
      case True
      with n "1.prems" show ?thesis
        using digitChar_inj [of n m] by (simp add: showNat.simps [of n] showNat.simps [of m])
    next
      case False
      with n "1.prems" showNat_nonempty [of "m div 10"] show ?thesis
        by (simp add: showNat.simps [of n] showNat.simps [of m])
    qed
  next
    case n: False
    show ?thesis
    proof (cases "m < 10")
      case True
      with n "1.prems" showNat_nonempty [of "n div 10"] show ?thesis
        by (simp add: showNat.simps [of n] showNat.simps [of m])
    next
      case False
      with n "1.prems" have a: "showNat (n div 10) = showNat (m div 10)"
        and b: "digitChar (n mod 10) = digitChar (m mod 10)"
        by (simp_all add: showNat.simps [of n] showNat.simps [of m])
      from "1.IH" [OF n a] have "n div 10 = m div 10" .
      moreover from b have "n mod 10 = m mod 10" by (intro digitChar_inj) simp_all
      ultimately show ?thesis by (metis div_mult_mod_eq)
    qed
  qed
qed

lemma dashfree_split:
  assumes "CHR ''-'' \<notin> set xs" "CHR ''-'' \<notin> set ys"
    and "xs @ CHR ''-'' # r = ys @ CHR ''-'' # r'"
  shows "xs = ys \<and> r = r'"
proof -
  have "takeWhile (\<lambda>c. c \<noteq> CHR ''-'') (xs @ CHR ''-'' # r) = xs"
    using assms(1) by (auto simp: takeWhile_tail)
  moreover have "takeWhile (\<lambda>c. c \<noteq> CHR ''-'') (ys @ CHR ''-'' # r') = ys"
    using assms(2) by (auto simp: takeWhile_tail)
  ultimately have "xs = ys" using assms(3) by simp
  with assms(3) show ?thesis by simp
qed

lemma showNat_split:
  "showNat a @ CHR ''-'' # r = showNat b @ CHR ''-'' # r' \<Longrightarrow> a = b \<and> r = r'"
  using dashfree_split [OF showNat_dashfree showNat_dashfree] showNat_inj by blast

lemma showNat_hd: "hd (showNat n) \<noteq> CHR ''-''"
  using showNat_dashfree [of n] showNat_nonempty [of n] by (cases "showNat n") auto

lemma showInt_split:
  assumes "showInt a @ CHR ''-'' # r = showInt b @ CHR ''-'' # r'"
  shows "a = b \<and> r = r'"
proof (cases "a < 0")
  case a: True
  show ?thesis
  proof (cases "b < 0")
    case True
    with a assms have "showNat (nat (- a)) @ CHR ''-'' # r = showNat (nat (- b)) @ CHR ''-'' # r'"
      by (simp add: showInt_def)
    from showNat_split [OF this] have "nat (- a) = nat (- b)" and "r = r'" by auto
    with a True show ?thesis by linarith
  next
    case False
    with a assms have "CHR ''-'' # showNat (nat (- a)) @ CHR ''-'' # r
                       = showNat (nat b) @ CHR ''-'' # r'"
      by (simp add: showInt_def)
    then have "hd (showNat (nat b) @ CHR ''-'' # r') = CHR ''-''" by (metis list.sel(1))
    with showNat_hd [of "nat b"] showNat_nonempty [of "nat b"] show ?thesis by simp
  qed
next
  case a: False
  show ?thesis
  proof (cases "b < 0")
    case True
    with a assms have "showNat (nat a) @ CHR ''-'' # r
                       = CHR ''-'' # showNat (nat (- b)) @ CHR ''-'' # r'"
      by (simp add: showInt_def)
    then have "hd (showNat (nat a) @ CHR ''-'' # r) = CHR ''-''" by (metis list.sel(1))
    with showNat_hd [of "nat a"] showNat_nonempty [of "nat a"] show ?thesis by simp
  next
    case False
    with a assms have "showNat (nat a) @ CHR ''-'' # r = showNat (nat b) @ CHR ''-'' # r'"
      by (simp add: showInt_def)
    from showNat_split [OF this] have "nat a = nat b" and "r = r'" by auto
    with a False show ?thesis by linarith
  qed
qed

lemma showInt_inj: "showInt a = showInt b \<Longrightarrow> a = b"
proof -
  assume "showInt a = showInt b"
  then have "showInt a @ CHR ''-'' # [] = showInt b @ CHR ''-'' # []" by simp
  from showInt_split [OF this] show ?thesis by simp
qed

lemma point_prefix_split:
  assumes "concat (map (\<lambda>i. showNat (p i) @ ''-'' @ showInt (c i) @ ''-'') xs) @ t
         = concat (map (\<lambda>i. showNat (p' i) @ ''-'' @ showInt (c' i) @ ''-'') xs) @ t'"
  shows "(\<forall>i\<in>set xs. p i = p' i \<and> c i = c' i) \<and> t = t'"
  using assms
proof (induction xs)
  case Nil
  then show ?case by simp
next
  case (Cons x xs)
  let ?r = "concat (map (\<lambda>i. showNat (p i) @ ''-'' @ showInt (c i) @ ''-'') xs) @ t"
  let ?r' = "concat (map (\<lambda>i. showNat (p' i) @ ''-'' @ showInt (c' i) @ ''-'') xs) @ t'"
  from Cons.prems have
    "showNat (p x) @ CHR ''-'' # (showInt (c x) @ CHR ''-'' # ?r)
     = showNat (p' x) @ CHR ''-'' # (showInt (c' x) @ CHR ''-'' # ?r')"
    by simp
  from showNat_split [OF this] have px: "p x = p' x"
    and "showInt (c x) @ CHR ''-'' # ?r = showInt (c' x) @ CHR ''-'' # ?r'" by auto
  from showInt_split [OF this(2)] have cx: "c x = c' x" and "?r = ?r'" by auto
  from Cons.IH [OF this(2)] px cx show ?case by simp
qed

lemma hashPosition_sameView:
  assumes "hashPosition gs = hashPosition gs'"
  shows "sameView gs gs'"
proof -
  let ?t = "\<lambda>g. showInt (player1 (bar g)) @ ''-'' @ showInt (player2 (bar g)) @ ''-''
     @ showInt (player1 (bearoff g)) @ ''-'' @ showInt (player2 (bearoff g))"
  from assms have
    "concat (map (\<lambda>i. showNat (player (pointAt gs i)) @ ''-''
                      @ showInt (count (pointAt gs i)) @ ''-'') [1..24]) @ ?t gs
     = concat (map (\<lambda>i. showNat (player (pointAt gs' i)) @ ''-''
                      @ showInt (count (pointAt gs' i)) @ ''-'') [1..24]) @ ?t gs'"
    by (simp add: hashPosition_def)
  from point_prefix_split [OF this] have
    pts: "\<forall>i\<in>set [1..24]. player (pointAt gs i) = player (pointAt gs' i)
                          \<and> count (pointAt gs i) = count (pointAt gs' i)"
    and t: "?t gs = ?t gs'" by auto
  from t have "showInt (player1 (bar gs)) @ CHR ''-'' # (showInt (player2 (bar gs)) @ CHR ''-'' #
       (showInt (player1 (bearoff gs)) @ CHR ''-'' # showInt (player2 (bearoff gs))))
     = showInt (player1 (bar gs')) @ CHR ''-'' # (showInt (player2 (bar gs')) @ CHR ''-'' #
       (showInt (player1 (bearoff gs')) @ CHR ''-'' # showInt (player2 (bearoff gs'))))"
    by simp
  from showInt_split [OF this] have b1: "player1 (bar gs) = player1 (bar gs')"
    and "showInt (player2 (bar gs)) @ CHR ''-'' #
       (showInt (player1 (bearoff gs)) @ CHR ''-'' # showInt (player2 (bearoff gs)))
     = showInt (player2 (bar gs')) @ CHR ''-'' #
       (showInt (player1 (bearoff gs')) @ CHR ''-'' # showInt (player2 (bearoff gs')))"
    by auto
  from showInt_split [OF this(2)] have b2: "player2 (bar gs) = player2 (bar gs')"
    and "showInt (player1 (bearoff gs)) @ CHR ''-'' # showInt (player2 (bearoff gs))
       = showInt (player1 (bearoff gs')) @ CHR ''-'' # showInt (player2 (bearoff gs'))"
    by auto
  from showInt_split [OF this(2)] have o1: "player1 (bearoff gs) = player1 (bearoff gs')"
    and "showInt (player2 (bearoff gs)) = showInt (player2 (bearoff gs'))" by auto
  from showInt_inj [OF this(2)] have o2: "player2 (bearoff gs) = player2 (bearoff gs')" .
  have "pointAt gs i = pointAt gs' i" if "i \<in> set [1..24]" for i
    using pts that by (intro point.equality) auto
  moreover have "bar gs = bar gs'" using b1 b2 by (intro per_player.equality) auto
  moreover have "bearoff gs = bearoff gs'" using o1 o2 by (intro per_player.equality) auto
  ultimately show ?thesis by (simp add: sameView_def list_all_iff)
qed

subsection \<open>The score depends on the evaluator's view only\<close>

lemma sameView_pointAt: "sameView gs gs' \<Longrightarrow> 1 \<le> i \<Longrightarrow> i \<le> 24 \<Longrightarrow> pointAt gs i = pointAt gs' i"
  by (simp add: sameView_def list_all_iff)

lemma sameView_bar: "sameView gs gs' \<Longrightarrow> bar gs = bar gs'"
  by (simp add: sameView_def)

lemma sameView_bearoff: "sameView gs gs' \<Longrightarrow> bearoff gs = bearoff gs'"
  by (simp add: sameView_def)

lemma sv_occupiedBy:
  "sameView gs gs' \<Longrightarrow> 1 \<le> i \<Longrightarrow> i \<le> 24 \<Longrightarrow> occupiedBy gs pl i = occupiedBy gs' pl i"
  by (simp add: occupiedBy_def sameView_pointAt)

lemma sv_madePoint:
  "sameView gs gs' \<Longrightarrow> 1 \<le> i \<Longrightarrow> i \<le> 24 \<Longrightarrow> madePoint gs pl i = madePoint gs' pl i"
  by (simp add: madePoint_def sameView_pointAt)

lemma sv_isBlot:
  "sameView gs gs' \<Longrightarrow> 1 \<le> i \<Longrightarrow> i \<le> 24 \<Longrightarrow> isBlot gs pl i = isBlot gs' pl i"
  by (simp add: isBlot_def sameView_pointAt)

lemma list_ex_cong_range:
  "(\<And>i. i \<in> set xs \<Longrightarrow> P i = Q i) \<Longrightarrow> list_ex P xs = list_ex Q xs"
  by (simp add: list_ex_iff)

lemma sv_allHome:
  assumes "sameView gs gs'"
  shows "allCheckersInHomeBoardForAI gs pl = allCheckersInHomeBoardForAI gs' pl"
proof -
  have a: "list_ex (occupiedBy gs 1) [1..18] = list_ex (occupiedBy gs' 1) [1..18]"
    by (rule list_ex_cong_range) (simp add: sv_occupiedBy [OF assms])
  have b: "list_ex (occupiedBy gs 2) [7..24] = list_ex (occupiedBy gs' 2) [7..24]"
    by (rule list_ex_cong_range) (simp add: sv_occupiedBy [OF assms])
  show ?thesis
    unfolding allCheckersInHomeBoardForAI_def a b sameView_bar [OF assms] ..
qed

lemma sv_pip:
  assumes "sameView gs gs'"
  shows "calculatePipCount gs pl = calculatePipCount gs' pl"
proof -
  have a: "map (\<lambda>i. if player (pointAt gs i) = pl then count (pointAt gs i) * (25 - i) else 0) [1..24]
         = map (\<lambda>i. if player (pointAt gs' i) = pl then count (pointAt gs' i) * (25 - i) else 0) [1..24]"
  proof (rule map_cong [OF refl])
    fix x assume "x \<in> set [1..24]"
    then have e: "pointAt gs x = pointAt gs' x" using assms by (simp add: sameView_pointAt)
    show "(if player (pointAt gs x) = pl then count (pointAt gs x) * (25 - x) else 0)
        = (if player (pointAt gs' x) = pl then count (pointAt gs' x) * (25 - x) else 0)"
      unfolding e ..
  qed
  have b: "map (\<lambda>i. if player (pointAt gs i) = pl then count (pointAt gs i) * i else 0) [1..24]
         = map (\<lambda>i. if player (pointAt gs' i) = pl then count (pointAt gs' i) * i else 0) [1..24]"
  proof (rule map_cong [OF refl])
    fix x assume "x \<in> set [1..24]"
    then have e: "pointAt gs x = pointAt gs' x" using assms by (simp add: sameView_pointAt)
    show "(if player (pointAt gs x) = pl then count (pointAt gs x) * x else 0)
        = (if player (pointAt gs' x) = pl then count (pointAt gs' x) * x else 0)"
      unfolding e ..
  qed
  show ?thesis
    unfolding calculatePipCount_def a b sameView_bar [OF assms] ..
qed

lemma sv_primes:
  assumes "sameView gs gs'"
  shows "evaluatePrimes gs pl = evaluatePrimes gs' pl"
proof -
  have "foldl (primeStep (madePoint gs pl)) (0, 0, 0, 0) [1..24]
      = foldl (primeStep (madePoint gs' pl)) (0, 0, 0, 0) [1..24]"
  proof (rule foldl_cong [OF refl refl])
    fix a x assume "x \<in> set [1..24]"
    then have e: "madePoint gs pl x = madePoint gs' pl x"
      using assms by (simp add: sv_madePoint)
    show "primeStep (madePoint gs pl) a x = primeStep (madePoint gs' pl) a x"
      unfolding primeStep_def e ..
  qed
  then show ?thesis unfolding evaluatePrimes_def by (simp only:)
qed

lemma sv_canBeHit:
  assumes "sameView gs gs'"
  shows "canBeHit gs pl i = canBeHit gs' pl i"
proof -
  have "list_ex (\<lambda>j. player (pointAt gs j) = opp \<and> count (pointAt gs j) > 0
                  \<and> (let distance = (if pl = 1 then i - j else j - i)
                     in distance > 0 \<and> distance \<le> 6)) [1..24]
      = list_ex (\<lambda>j. player (pointAt gs' j) = opp \<and> count (pointAt gs' j) > 0
                  \<and> (let distance = (if pl = 1 then i - j else j - i)
                     in distance > 0 \<and> distance \<le> 6)) [1..24]" for opp
  proof (rule list_ex_cong_range)
    fix x assume "x \<in> set [1..24]"
    then have e: "pointAt gs x = pointAt gs' x" using assms by (simp add: sameView_pointAt)
    show "(player (pointAt gs x) = opp \<and> count (pointAt gs x) > 0
            \<and> (let distance = (if pl = 1 then i - x else x - i)
               in distance > 0 \<and> distance \<le> 6))
        = (player (pointAt gs' x) = opp \<and> count (pointAt gs' x) > 0
            \<and> (let distance = (if pl = 1 then i - x else x - i)
               in distance > 0 \<and> distance \<le> 6))"
      unfolding e ..
  qed
  then show ?thesis
    unfolding canBeHit_def sameView_bar [OF assms] by (simp only:)
qed

lemma sv_blots:
  assumes "sameView gs gs'"
  shows "evaluateBlotSafety gs pl = evaluateBlotSafety gs' pl"
proof -
  have "foldl (blotStep gs pl) (0, 0) [1..24] = foldl (blotStep gs' pl) (0, 0) [1..24]"
  proof (rule foldl_cong [OF refl refl])
    fix a x assume "x \<in> set [1..24]"
    then have e: "pointAt gs x = pointAt gs' x" using assms by (simp add: sameView_pointAt)
    show "blotStep gs pl a x = blotStep gs' pl a x"
      unfolding blotStep_def isBlot_def e sv_canBeHit [OF assms] ..
  qed
  then show ?thesis unfolding evaluateBlotSafety_def by (simp only:)
qed

lemma sv_phase:
  assumes "sameView gs gs'"
  shows "detectGamePhase gs = detectGamePhase gs'"
  unfolding detectGamePhase_def isPrimingOrBlitzing_def
    sv_primes [OF assms] sv_blots [OF assms] sv_allHome [OF assms] sv_pip [OF assms]
    sameView_bar [OF assms] ..

lemma sv_race:
  assumes "sameView gs gs'"
  shows "calculateRaceCount gs pl = calculateRaceCount gs' pl"
  unfolding calculateRaceCount_def sv_pip [OF assms] ..

lemma sv_distribution:
  assumes "sameView gs gs'"
  shows "calculateDistribution gs pl = calculateDistribution gs' pl"
proof -
  have "foldl (distStep gs pl) (0, 0, - 1) [1..24] = foldl (distStep gs' pl) (0, 0, - 1) [1..24]"
  proof (rule foldl_cong [OF refl refl])
    fix a x assume "x \<in> set [1..24]"
    then have e: "pointAt gs x = pointAt gs' x" using assms by (simp add: sameView_pointAt)
    show "distStep gs pl a x = distStep gs' pl a x"
      unfolding distStep_def e ..
  qed
  then show ?thesis unfolding calculateDistribution_def by (simp only:)
qed

lemma sv_noContact:
  assumes "sameView gs gs'"
  shows "hasNoContactOnPlayer2Side gs = hasNoContactOnPlayer2Side gs'"
proof -
  have "list_ex (\<lambda>i. player (pointAt gs i) = 1 \<and> count (pointAt gs i) > 0) [1..12]
      = list_ex (\<lambda>i. player (pointAt gs' i) = 1 \<and> count (pointAt gs' i) > 0) [1..12]"
  proof (rule list_ex_cong_range)
    fix x assume "x \<in> set [1..12]"
    then have e: "pointAt gs x = pointAt gs' x" using assms by (simp add: sameView_pointAt)
    show "(player (pointAt gs x) = 1 \<and> count (pointAt gs x) > 0)
        = (player (pointAt gs' x) = 1 \<and> count (pointAt gs' x) > 0)"
      unfolding e ..
  qed
  then show ?thesis
    unfolding hasNoContactOnPlayer2Side_def sameView_bar [OF assms] by (simp only:)
qed

lemma sv_anchors:
  assumes "sameView gs gs'"
  shows "evaluateAnchors gs pl = evaluateAnchors gs' pl"
proof -
  have "foldl (anchorStep gs pl) (0, 0, []) (if pl = 1 then [1..6] else [19..24])
      = foldl (anchorStep gs' pl) (0, 0, []) (if pl = 1 then [1..6] else [19..24])"
  proof (rule foldl_cong [OF refl refl])
    fix a x assume "x \<in> set (if pl = 1 then [1..6] else [19..24])"
    then have "1 \<le> x \<and> x \<le> 24" by (auto split: if_splits)
    then have e: "pointAt gs x = pointAt gs' x" using assms by (simp add: sameView_pointAt)
    show "anchorStep gs pl a x = anchorStep gs' pl a x"
      unfolding anchorStep_def e ..
  qed
  then show ?thesis unfolding evaluateAnchors_def by (simp only:)
qed

lemma sv_keyPoints:
  assumes "sameView gs gs'"
  shows "evaluateKeyPointControl gs = evaluateKeyPointControl gs'"
proof -
  have "foldl (keyPointStep gs) 0 KEY_POINT_PRIORITIES
      = foldl (keyPointStep gs') 0 KEY_POINT_PRIORITIES"
  proof (rule foldl_cong [OF refl refl])
    fix a x assume "x \<in> set KEY_POINT_PRIORITIES"
    then have "1 \<le> fst x \<and> fst x \<le> 24" by (auto simp: KEY_POINT_PRIORITIES_def)
    then have e: "pointAt gs (fst x) = pointAt gs' (fst x)"
      using assms by (simp add: sameView_pointAt)
    show "keyPointStep gs a x = keyPointStep gs' a x"
      unfolding keyPointStep_def using e by (cases x) simp
  qed
  then show ?thesis unfolding evaluateKeyPointControl_def by (simp only:)
qed

lemma sv_homeStructure:
  assumes "sameView gs gs'"
  shows "evaluateHomeBoardStructure gs pl = evaluateHomeBoardStructure gs' pl"
proof -
  have "foldl (homeStep gs pl) (0, 0, 0, - 1) (if pl = 1 then [19..24] else [1..6])
      = foldl (homeStep gs' pl) (0, 0, 0, - 1) (if pl = 1 then [19..24] else [1..6])"
  proof (rule foldl_cong [OF refl refl])
    fix a x assume "x \<in> set (if pl = 1 then [19..24] else [1..6])"
    then have "1 \<le> x \<and> x \<le> 24" by (auto split: if_splits)
    then have e: "pointAt gs x = pointAt gs' x" using assms by (simp add: sameView_pointAt)
    show "homeStep gs pl a x = homeStep gs' pl a x"
      unfolding homeStep_def e ..
  qed
  then show ?thesis unfolding evaluateHomeBoardStructure_def by (simp only:)
qed

lemma sv_crunching:
  assumes "sameView gs gs'"
  shows "evaluateCrunching gs pl = evaluateCrunching gs' pl"
proof -
  have "foldl (crunchStep gs pl) (0, 0, 0, 0, 0, 0) [1..24]
      = foldl (crunchStep gs' pl) (0, 0, 0, 0, 0, 0) [1..24]"
  proof (rule foldl_cong [OF refl refl])
    fix a x assume "x \<in> set [1..24]"
    then have e: "pointAt gs x = pointAt gs' x" using assms by (simp add: sameView_pointAt)
    show "crunchStep gs pl a x = crunchStep gs' pl a x"
      unfolding crunchStep_def e ..
  qed
  then show ?thesis
    unfolding evaluateCrunching_def sv_allHome [OF assms] by (simp only:)
qed

lemma sv_pipWeight:
  assumes "sameView gs gs'"
  shows "calculateDynamicPipWeight gs b ph = calculateDynamicPipWeight gs' b ph"
proof -
  have "foldl (\<lambda>s p. s + (if player (pointAt gs p) = q then count (pointAt gs p) else 0)) 0 [1..7]
      = foldl (\<lambda>s p. s + (if player (pointAt gs' p) = q then count (pointAt gs' p) else 0)) 0 [1..7]"
    for q
  proof (rule foldl_cong [OF refl refl])
    fix a x assume "x \<in> set [1..7]"
    then have e: "pointAt gs x = pointAt gs' x" using assms by (simp add: sameView_pointAt)
    show "a + (if player (pointAt gs x) = q then count (pointAt gs x) else 0)
        = a + (if player (pointAt gs' x) = q then count (pointAt gs' x) else 0)"
      unfolding e ..
  qed
  then show ?thesis
    unfolding calculateDynamicPipWeight_def sv_pip [OF assms] sameView_bearoff [OF assms]
    by (simp only:)
qed

lemma sv_weights:
  assumes "sameView gs gs'"
  shows "phaseWeights gs ph = phaseWeights gs' ph"
  unfolding phaseWeights_def sv_pipWeight [OF assms] ..

lemma sv_positionScore:
  assumes "sameView gs gs'"
  shows "positionScore gs = positionScore gs'"
proof -
  have h: "foldl (\<lambda>s i. if player (pointAt gs i) = 2 \<and> count (pointAt gs i) > 0
                          then s + count (pointAt gs i) else s) 0 [1..6]
         = foldl (\<lambda>s i. if player (pointAt gs' i) = 2 \<and> count (pointAt gs' i) > 0
                          then s + count (pointAt gs' i) else s) 0 [1..6]"
  proof (rule foldl_cong [OF refl refl])
    fix a x assume "x \<in> set [1..6]"
    then have e: "pointAt gs x = pointAt gs' x" using assms by (simp add: sameView_pointAt)
    show "(if player (pointAt gs x) = 2 \<and> count (pointAt gs x) > 0
           then a + count (pointAt gs x) else a)
        = (if player (pointAt gs' x) = 2 \<and> count (pointAt gs' x) > 0
           then a + count (pointAt gs' x) else a)"
      unfolding e ..
  qed
  show ?thesis
    unfolding positionScore_def h sv_phase [OF assms] sv_weights [OF assms] sv_pip [OF assms]
      sv_race [OF assms] sv_homeStructure [OF assms] sv_blots [OF assms] sv_primes [OF assms]
      sv_anchors [OF assms] sv_distribution [OF assms] sv_crunching [OF assms]
      sv_keyPoints [OF assms] sv_noContact [OF assms]
      sameView_bar [OF assms] sameView_bearoff [OF assms] ..
qed

lemma hash_determines_score:
  "hashPosition gs = hashPosition gs' \<Longrightarrow> positionScore gs = positionScore gs'"
  by (rule sv_positionScore) (rule hashPosition_sameView)

subsection \<open>The cache only ever holds true scores\<close>

lemma cacheSound_empty: "cacheSound []"
  by (simp add: cacheSound_def)

lemma cacheSound_subset: "cacheSound c \<Longrightarrow> set c' \<subseteq> set c \<Longrightarrow> cacheSound c'"
  unfolding cacheSound_def by blast

lemma cacheSound_delete: "cacheSound c \<Longrightarrow> cacheSound (cacheDelete c k)"
  by (rule cacheSound_subset) (auto simp: cacheDelete_def)

lemma set_cacheSet: "set (cacheSet c k v) \<subseteq> insert (k, v) (set c)"
  by (auto simp: cacheSet_def split: if_splits)

lemma cacheSound_set:
  assumes "cacheSound c" and "\<And>gs. hashPosition gs = k \<Longrightarrow> v = positionScore gs"
  shows "cacheSound (cacheSet c k v)"
proof -
  have "w = positionScore gs" if "(h, w) \<in> set (cacheSet c k v)" "hashPosition gs = h" for h w gs
  proof -
    from that(1) set_cacheSet [of c k v] have "(h, w) = (k, v) \<or> (h, w) \<in> set c" by blast
    then show ?thesis
    proof
      assume "(h, w) = (k, v)"
      with that(2) assms(2) [of gs] show ?thesis by simp
    next
      assume "(h, w) \<in> set c"
      with assms(1) that(2) show ?thesis unfolding cacheSound_def by blast
    qed
  qed
  then show ?thesis unfolding cacheSound_def by blast
qed

lemma cacheSound_update:
  assumes "cacheSound c" and "\<And>gs. hashPosition gs = k \<Longrightarrow> v = positionScore gs"
  shows "cacheSound (updateCache c k v)"
proof -
  have "cacheSound (if length c \<ge> CACHE_SIZE
                then (case c of [] \<Rightarrow> c | (firstKey, _) # _ \<Rightarrow> cacheDelete c firstKey)
                else c)"
    using assms(1) by (auto simp: cacheSound_delete split: list.splits)
  then show ?thesis
    unfolding updateCache_def Let_def by (rule cacheSound_set) (rule assms(2))
qed

lemma evaluatePosition_sound:
  assumes "cacheSound c"
  shows "fst (evaluatePosition c gs) = positionScore gs \<and> cacheSound (snd (evaluatePosition c gs))"
proof (cases "map_of c (hashPosition gs)")
  case None
  have "cacheSound (updateCache c (hashPosition gs) (positionScore gs))"
    by (rule cacheSound_update [OF assms]) (rule hash_determines_score [symmetric])
  with None show ?thesis by (simp add: evaluatePosition_def Let_def)
next
  case (Some v)
  then have "(hashPosition gs, v) \<in> set c" by (rule map_of_SomeD)
  with assms have "v = positionScore gs" unfolding cacheSound_def by blast
  with Some assms show ?thesis by (simp add: evaluatePosition_def Let_def)
qed

lemma evaluatePosition_empty: "fst (evaluatePosition [] gs) = positionScore gs"
  by (simp add: evaluatePosition_def Let_def)

lemma reachableCache_sound: "reachableCache c \<Longrightarrow> cacheSound c"
  by (induction rule: reachableCache.induct) (simp_all add: cacheSound_empty evaluatePosition_sound)

lemma runCached_transparent:
  "reachableCache c \<Longrightarrow>
   fst (runCached p c) = runUncached p \<and> reachableCache (snd (runCached p c))"
proof (induction p arbitrary: c)
  case (Done a)
  then show ?case by simp
next
  case (Ask gs k)
  obtain v c' where e: "evaluatePosition c gs = (v, c')" by (cases "evaluatePosition c gs")
  have v: "v = fst (evaluatePosition [] gs)"
    using evaluatePosition_sound [OF reachableCache_sound [OF Ask.prems], of gs] e
    by (simp add: evaluatePosition_empty)
  have "reachableCache c'"
    using reachableCache.step [OF Ask.prems, of gs] e by simp
  have "fst (runCached (k v) c') = runUncached (k v) \<and> reachableCache (snd (runCached (k v) c'))"
    by (rule Ask.IH) (simp_all add: \<open>reachableCache c'\<close>)
  then show ?case using v by (simp add: e)
qed

text \<open>The cache stays within its bound, and a full cache loses its oldest entry.\<close>

lemma cacheDelete_head:
  assumes "distinct (map fst ((k, v) # c))"
  shows "cacheDelete ((k, v) # c) k = c"
proof -
  have "k \<notin> fst ` set c" using assms by simp
  then have "filter (\<lambda>(k', v'). k' \<noteq> k) c = c"
    by (intro filter_True) force
  then show ?thesis by (simp add: cacheDelete_def)
qed

lemma reachableCache_bounded:
  "reachableCache c \<Longrightarrow> distinct (map fst c) \<and> length c \<le> CACHE_SIZE"
proof (induction rule: reachableCache.induct)
  case empty
  show ?case by simp
next
  case (step c gs)
  then have d: "distinct (map fst c)" and l: "length c \<le> CACHE_SIZE" by auto
  show ?case
  proof (cases "map_of c (hashPosition gs)")
    case (Some v)
    with d l show ?thesis by (simp add: evaluatePosition_def Let_def)
  next
    case None
    then have fresh: "hashPosition gs \<notin> fst ` set c" by (simp add: map_of_eq_None_iff)
    let ?c1 = "if length c \<ge> CACHE_SIZE
               then (case c of [] \<Rightarrow> c | (firstKey, _) # _ \<Rightarrow> cacheDelete c firstKey)
               else c"
    have c1: "distinct (map fst ?c1) \<and> length ?c1 < CACHE_SIZE \<and> set ?c1 \<subseteq> set c"
    proof (cases "length c \<ge> CACHE_SIZE")
      case False
      with d show ?thesis by simp
    next
      case True
      then obtain k v rest where c: "c = (k, v) # rest"
        by (cases c) (auto simp: CACHE_SIZE_def)
      have "cacheDelete c k = rest" using d unfolding c by (rule cacheDelete_head)
      with True c d l show ?thesis by auto
    qed
    have "map_of ?c1 (hashPosition gs) = None"
      using fresh c1 by (force simp: map_of_eq_None_iff)
    then have "cacheSet ?c1 (hashPosition gs) (positionScore gs)
             = ?c1 @ [(hashPosition gs, positionScore gs)]"
      by (simp add: cacheSet_def)
    moreover have "hashPosition gs \<notin> fst ` set ?c1" using fresh c1 by force
    ultimately have "distinct (map fst (updateCache c (hashPosition gs) (positionScore gs)))
        \<and> length (updateCache c (hashPosition gs) (positionScore gs)) \<le> CACHE_SIZE"
      using c1 unfolding updateCache_def Let_def by auto
    with None show ?thesis by (simp add: evaluatePosition_def Let_def)
  qed
qed

text \<open>
  \<^bold>\<open>C8.\<close>  Whatever the cache holds after any number of evaluations (evictions
  included), the evaluator returns the score it returns on the empty cache, and
  leaves a cache of the same kind behind.  Hence every client that reaches the cache
  through the evaluator only --- the ordering, the lookahead, the selection of the
  best sequence --- computes the same result with the cache as without it.
\<close>

theorem cache_is_transparent:
  assumes "reachableCache c"
  shows "fst (evaluatePosition c gs) = fst (evaluatePosition [] gs)
       \<and> reachableCache (snd (evaluatePosition c gs))
       \<and> fst (runCached p c) = runUncached p"
  using assms evaluatePosition_sound [OF reachableCache_sound [OF assms], of gs]
    reachableCache.step [OF assms, of gs] runCached_transparent [OF assms, of p]
  by (simp add: evaluatePosition_empty)

theorem cache_is_transparent_witness:
  "reachableCache (snd (evaluatePosition [] openingState))
   \<and> fst (evaluatePosition (snd (evaluatePosition [] openingState)) openingState) = 24
   \<and> fst (evaluatePosition [] openingState) = 24"
proof -
  have r: "reachableCache (snd (evaluatePosition [] openingState))"
    by (rule reachableCache.step) (rule reachableCache.empty)
  have v: "positionScore openingState = 24" by code_simp
  from cache_is_transparent [OF r, of openingState "Done ()"] v r show ?thesis
    by (simp add: evaluatePosition_empty)
qed

subsection \<open>The ORDER step\<close>

lemma mset_insertDesc: "mset (insertDesc x ys) = add_mset x (mset ys)"
  by (induction ys) auto

lemma mset_sortDesc: "mset (sortDesc xs) = mset xs"
  unfolding sortDesc_def by (induction xs) (auto simp: mset_insertDesc)

lemma set_insertDesc: "set (insertDesc x ys) = insert x (set ys)"
  by (induction ys) auto

lemma sorted_insertDesc:
  "sorted_wrt (\<lambda>a b. snd b \<le> snd a) ys \<Longrightarrow> sorted_wrt (\<lambda>a b. snd b \<le> snd a) (insertDesc x ys)"
  by (induction ys) (auto simp: set_insertDesc)

lemma sorted_sortDesc: "sorted_wrt (\<lambda>a b. snd b \<le> snd a) (sortDesc xs)"
  unfolding sortDesc_def by (induction xs) (auto simp: sorted_insertDesc)

lemma sortDesc_scored:
  "\<forall>p\<in>set (sortDesc (map (\<lambda>s. (s, f s)) xs)). snd p = f (fst p)"
proof -
  have "set (sortDesc (map (\<lambda>s. (s, f s)) xs)) = set (map (\<lambda>s. (s, f s)) xs)"
    using mset_sortDesc [of "map (\<lambda>s. (s, f s)) xs"] by (metis set_mset_mset)
  then show ?thesis by auto
qed

lemma mset_orderMoves: "mset (orderMovesByEvaluation xs gs pl) = mset xs"
proof -
  have "mset (map fst (sortDesc (map (\<lambda>s. (s, shallowScore gs s pl)) xs)))
        = image_mset fst (mset (sortDesc (map (\<lambda>s. (s, shallowScore gs s pl)) xs)))"
    by simp
  also have "\<dots> = image_mset fst (mset (map (\<lambda>s. (s, shallowScore gs s pl)) xs))"
    by (simp only: mset_sortDesc)
  also have "\<dots> = mset xs" by (simp add: image_mset.compositionality comp_def)
  finally show ?thesis by (simp add: orderMovesByEvaluation_def)
qed

lemma sorted_orderMoves:
  "sorted_wrt (\<lambda>a b. shallowScore gs b pl \<le> shallowScore gs a pl)
     (orderMovesByEvaluation xs gs pl)"
proof -
  let ?ys = "sortDesc (map (\<lambda>s. (s, shallowScore gs s pl)) xs)"
  have s: "sorted_wrt (\<lambda>a b. snd b \<le> snd a) ?ys" by (rule sorted_sortDesc)
  have k: "\<forall>p\<in>set ?ys. snd p = shallowScore gs (fst p) pl" by (rule sortDesc_scored)
  have "sorted_wrt (\<lambda>a b. shallowScore gs (fst b) pl \<le> shallowScore gs (fst a) pl) ?ys"
    by (rule sorted_wrt_mono_rel [OF _ s]) (use k in auto)
  then show ?thesis
    by (simp add: orderMovesByEvaluation_def sorted_wrt_map)
qed

lemma sequencesToEvaluate_take:
  "sequencesToEvaluate gs
   = take MAX_SEQUENCES_TO_SEARCH (generateAllMoveSequences gs (availableMoves gs) 2)"
  by (simp add: sequencesToEvaluate_def Let_def)

text \<open>
  \<^bold>\<open>C6, as the code has it.\<close>  The ORDER step first cuts the generated list down
  to its first 20 sequences, in generation order; it then scores exactly those and
  sorts them by descending shallow score.  The candidates handed to the filters are
  a rearrangement of the first 20 generated sequences.
\<close>

theorem order_step_sorts_first_twenty:
  "mset (orderedSequences gs)
     = mset (take MAX_SEQUENCES_TO_SEARCH (generateAllMoveSequences gs (availableMoves gs) 2))
   \<and> sorted_wrt (\<lambda>a b. shallowScore gs b 2 \<le> shallowScore gs a 2) (orderedSequences gs)"
  unfolding orderedSequences_def
  by (simp add: mset_orderMoves sorted_orderMoves sequencesToEvaluate_take)

theorem order_step_sorts_first_twenty_witness:
  "length (generateAllMoveSequences orderState (availableMoves orderState) 2) = 26
   \<and> length (orderedSequences orderState) = 20"
proof -
  have g: "length (generateAllMoveSequences orderState (availableMoves orderState) 2) = 26"
    by code_simp
  from order_step_sorts_first_twenty [of orderState]
  have "size (mset (orderedSequences orderState))
      = size (mset (take MAX_SEQUENCES_TO_SEARCH
                     (generateAllMoveSequences orderState (availableMoves orderState) 2)))"
    by simp
  then show ?thesis using g by (simp add: MAX_SEQUENCES_TO_SEARCH_def)
qed

text \<open>
  \<^bold>\<open>C6, as stated, fails.\<close>  In \<open>orderState\<close> the generator returns 26
  sequences.  \<open>runVia18\<close> is the 20th and is kept; \<open>runVia19\<close> is the 25th and is
  cut off before any score is computed.  Both end in the same position, so they get
  the same position score, and the backmost-checker bonus of the second is larger
  by 50: a dropped candidate has a strictly higher shallow score than a kept one.
\<close>

theorem order_step_counterexample:
  "length (generateAllMoveSequences orderState (availableMoves orderState) 2) > MAX_SEQUENCES_TO_SEARCH
   \<and> runVia18 \<in> set (orderedSequences orderState)
   \<and> runVia19 \<in> set (generateAllMoveSequences orderState (availableMoves orderState) 2)
   \<and> runVia19 \<notin> set (orderedSequences orderState)
   \<and> shallowScore orderState runVia18 2 < shallowScore orderState runVia19 2"
proof -
  let ?gen = "generateAllMoveSequences orderState (availableMoves orderState) 2"
  have len: "length ?gen = 26" by code_simp
  have kept: "runVia18 \<in> set (take 20 ?gen)" by code_simp
  have gen: "runVia19 \<in> set ?gen" by code_simp
  have dropped: "runVia19 \<notin> set (take 20 ?gen)" by code_simp
  have "mset (orderedSequences orderState) = mset (take 20 ?gen)"
    unfolding orderedSequences_def
    by (simp add: mset_orderMoves sequencesToEvaluate_take MAX_SEQUENCES_TO_SEARCH_def)
  then have s: "set (orderedSequences orderState) = set (take 20 ?gen)"
    by (rule mset_eq_setD)
  have same: "fst (applySequenceAndScore orderState runVia18 2)
            = fst (applySequenceAndScore orderState runVia19 2)"
    by code_simp
  have h: "snd (applySequenceAndScore orderState runVia18 2) = 0"
    "snd (applySequenceAndScore orderState runVia19 2) = 0" by code_simp+
  have b: "calculateBackmostCheckerBonus runVia18 2 = 400"
    "calculateBackmostCheckerBonus runVia19 2 = 450" by code_simp+
  have n: "calculateNoContactHomeBoardBonus orderState runVia18 2 = 0"
    "calculateNoContactHomeBoardBonus orderState runVia19 2 = 0" by code_simp+
  have o: "calculateBearoffBonus orderState runVia18 2 = 0"
    "calculateBearoffBonus orderState runVia19 2 = 0" by code_simp+
  have ph: "detectGamePhase orderState = CONTACT" by code_simp
  have z: "calculateBlitzBonus orderState sq 2 = 0" "calculatePrimingBonus orderState sq 2 = 0"
    for sq
    by (simp_all add: calculateBlitzBonus_def calculatePrimingBonus_def ph)
  have "shallowScore orderState runVia18 2 < shallowScore orderState runVia19 2"
    unfolding shallowScore_def Let_def same h b n o z
    by (simp add: runVia18_def runVia19_def)
  then show ?thesis using len kept gen dropped s
    by (simp add: MAX_SEQUENCES_TO_SEARCH_def)
qed

subsection \<open>Store primitives\<close>

lemma lookup_append: "lookup h a = Some ob \<Longrightarrow> lookup (h @ ext) a = Some ob"
  by (auto simp: lookup_def nth_append split: if_splits)

lemma lookup_new [simp]: "lookup (h @ [ob]) (length h) = Some ob"
  by (simp add: lookup_def)

lemma lookup_store:
  "lookup (store h a ob) x = (if x = a \<and> a < length h then Some ob else lookup h x)"
  by (auto simp: lookup_def store_def)

lemma lookup_lt: "lookup h a = Some ob \<Longrightarrow> a < length h"
  by (auto simp: lookup_def split: if_splits)

lemma length_store [simp]: "length (store h a ob) = length h"
  by (simp add: store_def)

lemma take_store: "n \<le> a \<Longrightarrow> take n (store h a ob) = take n h"
  by (simp add: store_def)

text \<open>Readers see through an extension of the store.\<close>

lemma stateFields_append: "stateFields h g = Some v \<Longrightarrow> stateFields (h @ ext) g = Some v"
  by (auto simp: stateFields_def dest: lookup_append [where ext = ext]
      split: option.splits obj.splits)

lemma refArray_append: "refArray h g = Some v \<Longrightarrow> refArray (h @ ext) g = Some v"
  by (auto simp: refArray_def dest: lookup_append [where ext = ext]
      split: option.splits obj.splits)

lemma pointFields_append: "pointFields h g = Some v \<Longrightarrow> pointFields (h @ ext) g = Some v"
  by (auto simp: pointFields_def dest: lookup_append [where ext = ext]
      split: option.splits obj.splits)

lemma pairFields_append: "pairFields h g = Some v \<Longrightarrow> pairFields (h @ ext) g = Some v"
  by (auto simp: pairFields_def dest: lookup_append [where ext = ext]
      split: option.splits obj.splits)

lemma numArray_append: "numArray h g = Some v \<Longrightarrow> numArray (h @ ext) g = Some v"
  by (auto simp: numArray_def dest: lookup_append [where ext = ext]
      split: option.splits obj.splits)

lemma movesOf_append: "movesOf h av = Some v \<Longrightarrow> movesOf (h @ ext) av = Some v"
  by (auto simp: movesOf_def numArray_append split: option.splits)

lemma stateFields_lt: "stateFields h g = Some v \<Longrightarrow> g < length h"
  by (auto simp: stateFields_def dest: lookup_lt split: option.splits obj.splits)

lemma refArray_lt: "refArray h g = Some v \<Longrightarrow> g < length h"
  by (auto simp: refArray_def dest: lookup_lt split: option.splits obj.splits)

lemma pointFields_lt: "pointFields h g = Some v \<Longrightarrow> g < length h"
  by (auto simp: pointFields_def dest: lookup_lt split: option.splits obj.splits)

lemma pairFields_lt: "pairFields h g = Some v \<Longrightarrow> g < length h"
  by (auto simp: pairFields_def dest: lookup_lt split: option.splits obj.splits)

text \<open>Overwriting a point object, a pair object or the board array does not disturb
  readers of the other kinds.\<close>

lemma store_point_readers:
  assumes "pointFields h a = Some v"
  shows "stateFields (store h a (PointObj pl c)) x = stateFields h x"
    and "refArray (store h a (PointObj pl c)) x = refArray h x"
    and "pairFields (store h a (PointObj pl c)) x = pairFields h x"
    and "numArray (store h a (PointObj pl c)) x = numArray h x"
    and "pointFields (store h a (PointObj pl c)) x
         = (if x = a then Some (pl, c) else pointFields h x)"
  using assms
  by (auto simp: stateFields_def refArray_def pairFields_def numArray_def pointFields_def
      lookup_store dest: lookup_lt split: option.splits obj.splits)

lemma store_pair_readers:
  assumes "pairFields h a = Some v"
  shows "stateFields (store h a (PairObj x' y')) x = stateFields h x"
    and "refArray (store h a (PairObj x' y')) x = refArray h x"
    and "pointFields (store h a (PairObj x' y')) x = pointFields h x"
    and "numArray (store h a (PairObj x' y')) x = numArray h x"
    and "pairFields (store h a (PairObj x' y')) x
         = (if x = a then Some (x', y') else pairFields h x)"
  using assms
  by (auto simp: stateFields_def refArray_def pairFields_def numArray_def pointFields_def
      lookup_store dest: lookup_lt split: option.splits obj.splits)

lemma store_refs_readers:
  assumes "refArray h a = Some v"
  shows "stateFields (store h a (RefArray ps')) x = stateFields h x"
    and "pairFields (store h a (RefArray ps')) x = pairFields h x"
    and "pointFields (store h a (RefArray ps')) x = pointFields h x"
    and "numArray (store h a (RefArray ps')) x = numArray h x"
    and "refArray (store h a (RefArray ps')) x
         = (if x = a then Some ps' else refArray h x)"
  using assms
  by (auto simp: stateFields_def refArray_def pairFields_def numArray_def pointFields_def
      lookup_store dest: lookup_lt split: option.splits obj.splits)

lemma movesOf_cong_numArray:
  "(\<And>x. numArray h' x = numArray h x) \<Longrightarrow> movesOf h' av = movesOf h av"
  by (simp add: movesOf_def split: option.splits)

text \<open>A denoted snapshot is still denoted after the store has grown.\<close>

lemma denotes_append: "denotes h g gs \<Longrightarrow> denotes (h @ ext) g gs"
  unfolding denotes_def
  apply (elim exE conjE)
  subgoal for b r f av ps
    apply (rule exI [of _ b], rule exI [of _ r], rule exI [of _ f], rule exI [of _ av],
        rule exI [of _ ps])
    apply (simp add: stateFields_append refArray_append pointFields_append pairFields_append
        movesOf_append)
    done
  done

lemma denotes_extend:
  assumes "denotes h g gs" and "take (length h) h' = h"
  shows "denotes h' g gs"
proof -
  have "h' = h @ drop (length h) h'" using assms(2) by (metis append_take_drop_id)
  then show ?thesis using denotes_append [OF assms(1), of "drop (length h) h'"] by simp
qed

subsection \<open>What each store operation does to the state it owns\<close>

lemma owns_denotes: "owns n h ns gs \<Longrightarrow> denotes h ns gs"
  unfolding owns_def denotes_def by blast

lemma inBoard_setPoint [simp]: "inBoard (setPoint gs k x) i = inBoard gs i"
  by (simp add: inBoard_def setPoint_def)

lemma inBoard_bar_update [simp]: "inBoard (gs\<lparr>bar := b\<rparr>) i = inBoard gs i"
  by (simp add: inBoard_def)

lemma inBoard_bearoff_update [simp]: "inBoard (gs\<lparr>bearoff := b\<rparr>) i = inBoard gs i"
  by (simp add: inBoard_def)

lemma readPoint_owns:
  assumes "owns n h ns gs" and "inBoard gs i"
  shows "\<exists>a. readPoint h ns i = Some (a, player (pointAt gs i), count (pointAt gs i))"
  using assms unfolding owns_def inBoard_def
  by (auto simp: readPoint_def pointAt_def)

lemma store_point_owns:
  assumes o: "owns n h ns gs" and i: "inBoard gs i"
    and rd: "readPoint h ns i = Some (a, pl0, c0)"
  shows "owns n (store h a (PointObj pl c)) ns (setPoint gs i \<lparr>player = pl, count = c\<rparr>)
         \<and> take n (store h a (PointObj pl c)) = take n h"
proof -
  from o obtain b r f av ps where
    sf: "stateFields h ns = Some (b, r, f, currentPlayer gs, av)"
    and ra: "refArray h b = Some ps"
    and len: "length ps = length (board gs)"
    and pts: "\<forall>j<length ps. pointFields h (ps ! j)
                            = Some (player (board gs ! j), count (board gs ! j))"
    and bar: "pairFields h r = Some (player1 (bar gs), player2 (bar gs))"
    and off: "pairFields h f = Some (player1 (bearoff gs), player2 (bearoff gs))"
    and mv: "movesOf h av = Some (availableMoves gs)"
    and fr: "n \<le> b" "n \<le> r" "n \<le> f" "r \<noteq> f" "distinct ps" "\<forall>p\<in>set ps. n \<le> p"
      "n \<le> ns" "\<forall>a. av = Some a \<longrightarrow> n \<le> a"
    unfolding owns_def by blast
  from i have ir: "nat i < length ps" by (simp add: inBoard_def len)
  from rd sf ra i len have a: "a = ps ! nat i"
    by (auto simp: readPoint_def inBoard_def split: if_splits Option.bind_splits)
  have pa: "pointFields h a = Some (player (board gs ! nat i), count (board gs ! nat i))"
    using pts ir a by simp
  note rw = store_point_readers [OF pa]
  have na: "n \<le> a" using fr(6) ir a by simp
  let ?h = "store h a (PointObj pl c)"
  let ?gs = "setPoint gs i \<lparr>player = pl, count = c\<rparr>"
  have pts': "\<forall>j<length ps. pointFields ?h (ps ! j)
                = Some (player (board ?gs ! j), count (board ?gs ! j))"
  proof (intro allI impI)
    fix j assume j: "j < length ps"
    show "pointFields ?h (ps ! j) = Some (player (board ?gs ! j), count (board ?gs ! j))"
    proof (cases "j = nat i")
      case True
      have "pointFields ?h a = Some (pl, c)" by (simp add: rw(5))
      then have "pointFields ?h (ps ! j) = Some (pl, c)" using True a by simp
      then show ?thesis using True ir len by (simp add: setPoint_def)
    next
      case False
      then have "ps ! j \<noteq> a" using fr(5) j ir a by (simp add: nth_eq_iff_index_eq)
      then have "pointFields ?h (ps ! j) = pointFields h (ps ! j)" by (simp add: rw(5))
      then show ?thesis using pts j False by (simp add: setPoint_def)
    qed
  qed
  have "owns n ?h ns ?gs"
    unfolding owns_def
    apply (rule exI [of _ b], rule exI [of _ r], rule exI [of _ f], rule exI [of _ av],
        rule exI [of _ ps])
    using sf ra len pts' bar off mv fr
    by (simp add: rw movesOf_cong_numArray [of ?h h, OF rw(4)] setPoint_def)
  then show ?thesis using na by (simp add: take_store)
qed

lemma assignPoint_owns:
  assumes o: "owns n h ns gs" and i: "inBoard gs i"
  shows "\<exists>h'. assignPoint h ns i pl c = Some h'
            \<and> owns n h' ns (setPoint gs i \<lparr>player = pl, count = c\<rparr>)
            \<and> take n h' = take n h \<and> length h \<le> length h'"
proof -
  from o obtain b r f av ps where
    sf: "stateFields h ns = Some (b, r, f, currentPlayer gs, av)"
    and ra: "refArray h b = Some ps"
    and len: "length ps = length (board gs)"
    and pts: "\<forall>j<length ps. pointFields h (ps ! j)
                            = Some (player (board gs ! j), count (board gs ! j))"
    and bar: "pairFields h r = Some (player1 (bar gs), player2 (bar gs))"
    and off: "pairFields h f = Some (player1 (bearoff gs), player2 (bearoff gs))"
    and mv: "movesOf h av = Some (availableMoves gs)"
    and fr: "n \<le> b" "n \<le> r" "n \<le> f" "r \<noteq> f" "distinct ps" "\<forall>p\<in>set ps. n \<le> p"
      "n \<le> ns" "\<forall>a. av = Some a \<longrightarrow> n \<le> a"
    unfolding owns_def by blast
  from i have ir: "nat i < length ps" and i0: "0 \<le> i" by (simp_all add: inBoard_def len)
  let ?a = "length h"
  let ?h1 = "h @ [PointObj pl c]"
  let ?ps = "ps[nat i := ?a]"
  let ?h = "store ?h1 b (RefArray ?ps)"
  let ?gs = "setPoint gs i \<lparr>player = pl, count = c\<rparr>"
  have res: "assignPoint h ns i pl c = Some ?h"
    using sf ra ir i0 by (simp add: assignPoint_def alloc_def)
  have ra1: "refArray ?h1 b = Some ps" using ra by (rule refArray_append)
  note rw = store_refs_readers [OF ra1]
  have blt: "b < length h" using ra by (rule refArray_lt)
  have old: "p < length h" if "p \<in> set ps" for p
  proof -
    from that obtain j where "j < length ps" "ps ! j = p" by (auto simp: in_set_conv_nth)
    with pts show ?thesis using pointFields_lt by metis
  qed
  have pts': "\<forall>j<length ?ps. pointFields ?h (?ps ! j)
                = Some (player (board ?gs ! j), count (board ?gs ! j))"
  proof (intro allI impI)
    fix j assume j: "j < length ?ps"
    show "pointFields ?h (?ps ! j) = Some (player (board ?gs ! j), count (board ?gs ! j))"
    proof (cases "j = nat i")
      case True
      have "pointFields ?h1 ?a = Some (pl, c)" by (simp add: pointFields_def)
      then show ?thesis using True ir len by (simp add: rw setPoint_def)
    next
      case False
      have "pointFields ?h1 (ps ! j) = Some (player (board gs ! j), count (board gs ! j))"
        using pts j by (intro pointFields_append) simp
      then show ?thesis using False j by (simp add: rw setPoint_def)
    qed
  qed
  have dist: "distinct ?ps"
  proof -
    have "?a \<notin> set ps" using old by blast
    then show ?thesis using fr(5) by (simp add: distinct_list_update)
  qed
  have ge: "\<forall>p\<in>set ?ps. n \<le> p"
  proof
    fix p assume "p \<in> set ?ps"
    then have "p \<in> insert ?a (set ps)" using set_update_subset_insert by fast
    then show "n \<le> p" using fr(1,6) blt by auto
  qed
  have "owns n ?h ns ?gs"
    unfolding owns_def
    apply (rule exI [of _ b], rule exI [of _ r], rule exI [of _ f], rule exI [of _ av],
        rule exI [of _ ?ps])
    using stateFields_append [OF sf, of "[PointObj pl c]"] len pts' dist ge fr
      pairFields_append [OF bar, of "[PointObj pl c]"]
      pairFields_append [OF off, of "[PointObj pl c]"]
      movesOf_append [OF mv, of "[PointObj pl c]"]
    by (simp add: rw movesOf_cong_numArray [of ?h ?h1, OF rw(4)] setPoint_def)
  moreover have "take n ?h = take n h" using fr(1) blt by (simp add: take_store)
  ultimately show ?thesis using res by simp
qed

lemma addToBar_owns:
  assumes o: "owns n h ns gs"
  shows "\<exists>h'. addToBar h ns pl k = Some h'
            \<and> owns n h' ns (gs\<lparr>bar := setP (bar gs) pl (getP (bar gs) pl + k)\<rparr>)
            \<and> take n h' = take n h \<and> length h \<le> length h'"
proof -
  from o obtain b r f av ps where
    sf: "stateFields h ns = Some (b, r, f, currentPlayer gs, av)"
    and ra: "refArray h b = Some ps"
    and len: "length ps = length (board gs)"
    and pts: "\<forall>j<length ps. pointFields h (ps ! j)
                            = Some (player (board gs ! j), count (board gs ! j))"
    and bar: "pairFields h r = Some (player1 (bar gs), player2 (bar gs))"
    and off: "pairFields h f = Some (player1 (bearoff gs), player2 (bearoff gs))"
    and mv: "movesOf h av = Some (availableMoves gs)"
    and fr: "n \<le> b" "n \<le> r" "n \<le> f" "r \<noteq> f" "distinct ps" "\<forall>p\<in>set ps. n \<le> p"
      "n \<le> ns" "\<forall>a. av = Some a \<longrightarrow> n \<le> a"
    unfolding owns_def by blast
  let ?ob = "if pl = 1 then PairObj (player1 (bar gs) + k) (player2 (bar gs))
             else PairObj (player1 (bar gs)) (player2 (bar gs) + k)"
  let ?h = "store h r ?ob"
  let ?gs = "gs\<lparr>bar := setP (bar gs) pl (getP (bar gs) pl + k)\<rparr>"
  have res: "addToBar h ns pl k = Some ?h"
    using sf bar by (simp add: addToBar_def addToPair_def)
  have "owns n ?h ns ?gs"
  proof (cases "pl = 1")
    case True
    note rw = store_pair_readers [OF bar, of "player1 (bar gs) + k" "player2 (bar gs)"]
    show ?thesis
      unfolding owns_def
      apply (rule exI [of _ b], rule exI [of _ r], rule exI [of _ f], rule exI [of _ av],
          rule exI [of _ ps])
      using sf ra len pts off mv fr True
      by (simp add: rw movesOf_cong_numArray [OF rw(4)] setP_def getP_def)
  next
    case False
    note rw = store_pair_readers [OF bar, of "player1 (bar gs)" "player2 (bar gs) + k"]
    show ?thesis
      unfolding owns_def
      apply (rule exI [of _ b], rule exI [of _ r], rule exI [of _ f], rule exI [of _ av],
          rule exI [of _ ps])
      using sf ra len pts off mv fr False
      by (simp add: rw movesOf_cong_numArray [OF rw(4)] setP_def getP_def)
  qed
  moreover have "take n ?h = take n h" using fr(2) by (simp add: take_store)
  ultimately show ?thesis using res by simp
qed

lemma addToBearoff_owns:
  assumes o: "owns n h ns gs"
  shows "\<exists>h'. addToBearoff h ns pl k = Some h'
            \<and> owns n h' ns (gs\<lparr>bearoff := setP (bearoff gs) pl (getP (bearoff gs) pl + k)\<rparr>)
            \<and> take n h' = take n h \<and> length h \<le> length h'"
proof -
  from o obtain b r f av ps where
    sf: "stateFields h ns = Some (b, r, f, currentPlayer gs, av)"
    and ra: "refArray h b = Some ps"
    and len: "length ps = length (board gs)"
    and pts: "\<forall>j<length ps. pointFields h (ps ! j)
                            = Some (player (board gs ! j), count (board gs ! j))"
    and bar: "pairFields h r = Some (player1 (bar gs), player2 (bar gs))"
    and off: "pairFields h f = Some (player1 (bearoff gs), player2 (bearoff gs))"
    and mv: "movesOf h av = Some (availableMoves gs)"
    and fr: "n \<le> b" "n \<le> r" "n \<le> f" "r \<noteq> f" "distinct ps" "\<forall>p\<in>set ps. n \<le> p"
      "n \<le> ns" "\<forall>a. av = Some a \<longrightarrow> n \<le> a"
    unfolding owns_def by blast
  let ?ob = "if pl = 1 then PairObj (player1 (bearoff gs) + k) (player2 (bearoff gs))
             else PairObj (player1 (bearoff gs)) (player2 (bearoff gs) + k)"
  let ?h = "store h f ?ob"
  let ?gs = "gs\<lparr>bearoff := setP (bearoff gs) pl (getP (bearoff gs) pl + k)\<rparr>"
  have res: "addToBearoff h ns pl k = Some ?h"
    using sf off by (simp add: addToBearoff_def addToPair_def)
  have "owns n ?h ns ?gs"
  proof (cases "pl = 1")
    case True
    note rw = store_pair_readers [OF off, of "player1 (bearoff gs) + k" "player2 (bearoff gs)"]
    show ?thesis
      unfolding owns_def
      apply (rule exI [of _ b], rule exI [of _ r], rule exI [of _ f], rule exI [of _ av],
          rule exI [of _ ps])
      using sf ra len pts bar mv fr True
      by (simp add: rw movesOf_cong_numArray [OF rw(4)] setP_def getP_def)
  next
    case False
    note rw = store_pair_readers [OF off, of "player1 (bearoff gs)" "player2 (bearoff gs) + k"]
    show ?thesis
      unfolding owns_def
      apply (rule exI [of _ b], rule exI [of _ r], rule exI [of _ f], rule exI [of _ av],
          rule exI [of _ ps])
      using sf ra len pts bar mv fr False
      by (simp add: rw movesOf_cong_numArray [OF rw(4)] setP_def getP_def)
  qed
  moreover have "take n ?h = take n h" using fr(3) by (simp add: take_store)
  ultimately show ?thesis using res by simp
qed

lemma point_update_count:
  "(pointAt gs i)\<lparr>count := c\<rparr> = \<lparr>player = player (pointAt gs i), count = c\<rparr>"
  by simp

lemma point_update_player:
  "(pointAt gs i)\<lparr>player := p\<rparr> = \<lparr>player = p, count = count (pointAt gs i)\<rparr>"
  by simp

lemma landOnH_owns:
  assumes o: "owns n h ns gs" and t: "inBoard gs t"
  shows "\<exists>h'. landOnH h ns t pl = Some h' \<and> owns n h' ns (landOn gs t pl)
            \<and> take n h' = take n h \<and> length h \<le> length h'"
proof -
  from readPoint_owns [OF o t] obtain a where
    rd: "readPoint h ns t = Some (a, player (pointAt gs t), count (pointAt gs t))" by blast
  define hit where "hit \<longleftrightarrow> player (pointAt gs t) \<noteq> 0 \<and> player (pointAt gs t) \<noteq> pl"
  define opp :: nat where "opp = (if pl = 1 then 2 else 1)"
  define ns1 where
    "ns1 = (if hit
            then setPoint (gs\<lparr>bar := setP (bar gs) opp (getP (bar gs) opp + 1)\<rparr>)
                   t \<lparr>player = 0, count = 0\<rparr>
            else gs)"
  define first where
    "first = (if hit
              then do { h' \<leftarrow> addToBar h ns opp 1; assignPoint h' ns t 0 0 }
              else Some h)"
  have step1: "\<exists>h1. first = Some h1 \<and> owns n h1 ns ns1
                 \<and> take n h1 = take n h \<and> length h \<le> length h1"
  proof (cases hit)
    case False
    then show ?thesis using o by (simp add: first_def ns1_def)
  next
    case True
    from addToBar_owns [OF o, of opp 1] obtain h' where
      b: "addToBar h ns opp 1 = Some h'"
      "owns n h' ns (gs\<lparr>bar := setP (bar gs) opp (getP (bar gs) opp + 1)\<rparr>)"
      "take n h' = take n h" "length h \<le> length h'" by blast
    from assignPoint_owns [OF b(2), of t 0 0] t obtain h1 where
      "assignPoint h' ns t 0 0 = Some h1"
      "owns n h1 ns (setPoint (gs\<lparr>bar := setP (bar gs) opp (getP (bar gs) opp + 1)\<rparr>)
                      t \<lparr>player = 0, count = 0\<rparr>)"
      "take n h1 = take n h'" "length h' \<le> length h1" by auto
    with b True show ?thesis by (simp add: first_def ns1_def)
  qed
  then obtain h1 where
    f: "first = Some h1" and o1: "owns n h1 ns ns1"
    and k1: "take n h1 = take n h" "length h \<le> length h1" by blast
  have t1: "inBoard ns1 t" using t by (simp add: ns1_def)
  from readPoint_owns [OF o1 t1] obtain a1 where
    rd1: "readPoint h1 ns t = Some (a1, player (pointAt ns1 t), count (pointAt ns1 t))"
    by blast
  define res where
    "res = (if player (pointAt ns1 t) = pl
            then setPoint ns1 t ((pointAt ns1 t)\<lparr>count := count (pointAt ns1 t) + 1\<rparr>)
            else setPoint ns1 t \<lparr>player = pl, count = 1\<rparr>)"
  define second where
    "second = (if player (pointAt ns1 t) = pl
               then Some (store h1 a1 (PointObj (player (pointAt ns1 t))
                                                (count (pointAt ns1 t) + 1)))
               else assignPoint h1 ns t pl 1)"
  have step2: "\<exists>h2. second = Some h2 \<and> owns n h2 ns res
                 \<and> take n h2 = take n h1 \<and> length h1 \<le> length h2"
  proof (cases "player (pointAt ns1 t) = pl")
    case True
    from store_point_owns [OF o1 t1 rd1, of "player (pointAt ns1 t)" "count (pointAt ns1 t) + 1"]
    show ?thesis unfolding second_def res_def if_P [OF True] point_update_count by simp
  next
    case False
    from assignPoint_owns [OF o1 t1, of pl 1]
    show ?thesis unfolding second_def res_def if_not_P [OF False] .
  qed
  then obtain h2 where
    s: "second = Some h2" and o2: "owns n h2 ns res"
    and k2: "take n h2 = take n h1" "length h1 \<le> length h2" by blast
  have "landOnH h ns t pl =
          do { h1 \<leftarrow> first;
               (a1, pl1, c1) \<leftarrow> readPoint h1 ns t;
               if pl1 = pl then Some (store h1 a1 (PointObj pl1 (c1 + 1)))
               else assignPoint h1 ns t pl 1 }"
    unfolding landOnH_def rd first_def hit_def opp_def by simp
  then have run: "landOnH h ns t pl = Some h2"
    unfolding f using rd1 s by (simp add: second_def)
  have pure: "landOn gs t pl = res"
    unfolding landOn_def Let_def res_def ns1_def hit_def opp_def ..
  show ?thesis using run o2 k1 k2 unfolding pure by simp
qed

lemma liftFromH_owns:
  assumes o: "owns n h ns gs" and f: "inBoard gs f"
  shows "\<exists>h'. liftFromH h ns f = Some h' \<and> owns n h' ns (liftFrom gs f)
            \<and> take n h' = take n h \<and> length h \<le> length h'"
proof -
  from readPoint_owns [OF o f] obtain a where
    rd: "readPoint h ns f = Some (a, player (pointAt gs f), count (pointAt gs f))" by blast
  let ?ns1 = "setPoint gs f ((pointAt gs f)\<lparr>count := count (pointAt gs f) - 1\<rparr>)"
  let ?h1 = "store h a (PointObj (player (pointAt gs f)) (count (pointAt gs f) - 1))"
  from store_point_owns [OF o f rd, of "player (pointAt gs f)" "count (pointAt gs f) - 1"]
  have o1: "owns n ?h1 ns ?ns1" and k1: "take n ?h1 = take n h"
    by (simp_all only: point_update_count)
  have f1: "inBoard ?ns1 f" using f by simp
  from readPoint_owns [OF o1 f1] obtain a1 where
    rd1: "readPoint ?h1 ns f = Some (a1, player (pointAt ?ns1 f), count (pointAt ?ns1 f))"
    by blast
  let ?res = "if count (pointAt ?ns1 f) = 0
              then setPoint ?ns1 f ((pointAt ?ns1 f)\<lparr>player := 0\<rparr>) else ?ns1"
  let ?second = "if count (pointAt ?ns1 f) = 0
                 then Some (store ?h1 a1 (PointObj 0 (count (pointAt ?ns1 f))))
                 else Some ?h1"
  have step2: "\<exists>h2. ?second = Some h2 \<and> owns n h2 ns ?res
                 \<and> take n h2 = take n ?h1 \<and> length ?h1 \<le> length h2"
  proof (cases "count (pointAt ?ns1 f) = 0")
    case True
    from store_point_owns [OF o1 f1 rd1, of 0 "count (pointAt ?ns1 f)"]
    show ?thesis using True by (simp only: point_update_player if_True) simp
  next
    case False
    then show ?thesis using o1 by (simp only: if_False) simp
  qed
  then obtain h2 where
    s: "?second = Some h2" and o2: "owns n h2 ns ?res"
    and k2: "take n h2 = take n ?h1" "length ?h1 \<le> length h2" by blast
  have run: "liftFromH h ns f = Some h2"
    unfolding liftFromH_def rd using rd1 s by simp
  have pure: "liftFrom gs f = ?res"
    by (simp only: liftFrom_def Let_def)
  show ?thesis using run o2 k1 k2 unfolding pure by simp
qed

lemma clonePoints_spec:
  "map (pointFields h) ps = map Some vs \<Longrightarrow>
   clonePoints h ps
     = Some ([length h ..< length h + length ps], h @ map (\<lambda>(pl, c). PointObj pl c) vs)"
proof (induction ps arbitrary: h vs)
  case Nil
  then show ?case by simp
next
  case (Cons p ps)
  from Cons.prems obtain v vs' where vs: "vs = v # vs'" by (cases vs) auto
  obtain pl c where v: "v = (pl, c)" by (cases v)
  from Cons.prems have p: "pointFields h p = Some (pl, c)"
    and rest: "map (pointFields h) ps = map Some vs'" by (simp_all add: vs v)
  have "map (pointFields (h @ [PointObj pl c])) ps = map Some vs'"
  proof (rule nth_equalityI)
    show "length (map (pointFields (h @ [PointObj pl c])) ps) = length (map Some vs')"
      using arg_cong [OF rest, of length] by simp
  next
    fix i assume "i < length (map (pointFields (h @ [PointObj pl c])) ps)"
    then have i: "i < length ps" by simp
    then have "pointFields h (ps ! i) = Some (vs' ! i)"
      using arg_cong [OF rest, of "\<lambda>l. l ! i"] arg_cong [OF rest, of length] by simp
    then have "pointFields (h @ [PointObj pl c]) (ps ! i) = Some (vs' ! i)"
      by (rule pointFields_append)
    then show "map (pointFields (h @ [PointObj pl c])) ps ! i = map Some vs' ! i"
      using i arg_cong [OF rest, of length] by simp
  qed
  from Cons.IH [OF this]
  have ih: "clonePoints (h @ [PointObj pl c]) ps
            = Some ([Suc (length h) ..< Suc (length h + length ps)],
                    h @ PointObj pl c # map (\<lambda>(pl, c). PointObj pl c) vs')"
    by (simp del: upt_Suc)
  have e: "[length h ..< Suc (length h + length ps)]
           = length h # [Suc (length h) ..< Suc (length h + length ps)]"
    by (rule upt_conv_Cons) simp
  show ?case
    by (simp add: p alloc_def vs v ih e del: upt_Suc)
qed


lemma owns_mono:
  assumes o: "owns n h ns gs" and mn: "m \<le> n"
  shows "owns m h ns gs"
proof -
  from o obtain b r f av ps where
    sf: "stateFields h ns = Some (b, r, f, currentPlayer gs, av)"
    and ra: "refArray h b = Some ps"
    and len: "length ps = length (board gs)"
    and pts: "\<forall>j<length ps. pointFields h (ps ! j)
                            = Some (player (board gs ! j), count (board gs ! j))"
    and bar: "pairFields h r = Some (player1 (bar gs), player2 (bar gs))"
    and off: "pairFields h f = Some (player1 (bearoff gs), player2 (bearoff gs))"
    and mv: "movesOf h av = Some (availableMoves gs)"
    and fr: "n \<le> b" "n \<le> r" "n \<le> f" "r \<noteq> f" "distinct ps" "\<forall>p\<in>set ps. n \<le> p"
      "n \<le> ns" "\<forall>a. av = Some a \<longrightarrow> n \<le> a"
    unfolding owns_def by blast
  have lo: "m \<le> b" "m \<le> r" "m \<le> f" "m \<le> ns"
    using fr(1,2,3,7) mn by simp_all
  have lp: "\<forall>p\<in>set ps. m \<le> p" using fr(6) mn by auto
  have la: "\<forall>a. av = Some a \<longrightarrow> m \<le> a" using fr(8) mn by auto
  show ?thesis
    unfolding owns_def
    using sf ra len pts bar off mv fr(4,5) lo lp la by blast
qed

lemma cloneStateH_owns:
  assumes d: "denotes h g gs"
  shows "\<exists>ns h'. cloneStateH h g = Some (ns, h') \<and> owns (length h) h' ns gs
            \<and> take (length h) h' = h \<and> length h \<le> length h'"
proof -
  from d obtain b r f av ps where
    sf: "stateFields h g = Some (b, r, f, currentPlayer gs, av)"
    and ra: "refArray h b = Some ps"
    and len: "length ps = length (board gs)"
    and pts: "\<forall>j<length ps. pointFields h (ps ! j)
                            = Some (player (board gs ! j), count (board gs ! j))"
    and bar: "pairFields h r = Some (player1 (bar gs), player2 (bar gs))"
    and off: "pairFields h f = Some (player1 (bearoff gs), player2 (bearoff gs))"
    and mv: "movesOf h av = Some (availableMoves gs)"
    unfolding denotes_def by blast
  define vs where "vs = map (\<lambda>p. (player p, count p)) (board gs)"
  define L where "L = length ps"
  define n where "n = length h"
  have lvs: "length vs = L" by (simp add: vs_def L_def len)
  have "map (pointFields h) ps = map Some vs"
    by (rule nth_equalityI) (use pts len in \<open>simp_all add: vs_def\<close>)
  then have cp: "clonePoints h ps
                 = Some ([n ..< n + L], h @ map (\<lambda>(pl, c). PointObj pl c) vs)"
    unfolding n_def L_def by (rule clonePoints_spec)
  define E where
    "E = map (\<lambda>(pl, c). PointObj pl c) vs
         @ [RefArray [n ..< n + L],
            PairObj (player1 (bar gs)) (player2 (bar gs)),
            PairObj (player1 (bearoff gs)) (player2 (bearoff gs)),
            NumArray (availableMoves gs),
            StateObj (n + L) (n + L + 1) (n + L + 2) (currentPlayer gs) (Some (n + L + 3))]"
  note ap = pairFields_append [OF bar] pairFields_append [OF off] movesOf_append [OF mv]
  have res: "cloneStateH h g = Some (n + L + 4, h @ E)"
    by (simp add: cloneStateH_def sf ra cp alloc_def ap lvs E_def n_def [symmetric])
  have lE: "length E = L + 5" by (simp add: E_def lvs)
  have at: "lookup (h @ E) (n + k) = Some (E ! k)" if "k < L + 5" for k
    using that by (simp add: lookup_def n_def lE)
  have Ek: "E ! k = PointObj (player (board gs ! k)) (count (board gs ! k))" if "k < L" for k
    using that lvs by (simp add: E_def nth_append vs_def)
  have E0: "E ! L = RefArray [n ..< n + L]"
    and E1: "E ! (L + 1) = PairObj (player1 (bar gs)) (player2 (bar gs))"
    and E2: "E ! (L + 2) = PairObj (player1 (bearoff gs)) (player2 (bearoff gs))"
    and E3: "E ! (L + 3) = NumArray (availableMoves gs)"
    and E4: "E ! (L + 4) = StateObj (n + L) (n + L + 1) (n + L + 2) (currentPlayer gs)
                             (Some (n + L + 3))"
    using lvs by (simp_all add: E_def nth_append)
  have o1: "stateFields (h @ E) (n + L + 4)
            = Some (n + L, n + L + 1, n + L + 2, currentPlayer gs, Some (n + L + 3))"
    using at [of "L + 4"] E4 by (simp add: stateFields_def add.assoc)
  have o2: "refArray (h @ E) (n + L) = Some [n ..< n + L]"
    using at [of L] E0 by (simp add: refArray_def)
  have o3: "pointFields (h @ E) ([n ..< n + L] ! j)
            = Some (player (board gs ! j), count (board gs ! j))" if "j < L" for j
    using at [of j] that by (simp add: pointFields_def Ek)
  have o4: "pairFields (h @ E) (n + L + 1) = Some (player1 (bar gs), player2 (bar gs))"
    using at [of "L + 1"] E1 by (simp add: pairFields_def add.assoc)
  have o5: "pairFields (h @ E) (n + L + 2) = Some (player1 (bearoff gs), player2 (bearoff gs))"
    using at [of "L + 2"] E2 by (simp add: pairFields_def add.assoc)
  have o6: "movesOf (h @ E) (Some (n + L + 3)) = Some (availableMoves gs)"
    using at [of "L + 3"] E3 by (simp add: movesOf_def numArray_def add.assoc)
  have "owns n (h @ E) (n + L + 4) gs"
    unfolding owns_def
    apply (rule exI [of _ "n + L"], rule exI [of _ "n + L + 1"], rule exI [of _ "n + L + 2"],
        rule exI [of _ "Some (n + L + 3)"], rule exI [of _ "[n ..< n + L]"])
    using o1 o2 o3 o4 o5 o6 by (simp add: L_def len)
  then show ?thesis using res by (simp add: n_def)
qed

lemma cloneState_same [simp]: "cloneState gs = gs"
  by (simp add: cloneState_def)

lemma inBoard_liftFrom [simp]: "inBoard (liftFrom gs f) i = inBoard gs i"
  by (simp add: liftFrom_def Let_def)

lemma inBoard_landOn [simp]: "inBoard (landOn gs t pl) i = inBoard gs i"
  by (simp add: landOn_def Let_def)

lemma simulateMoveH_owns:
  assumes d: "denotes h g gs" and r: "moveInRange gs src dst"
  shows "\<exists>ns h'. simulateMoveH h g src dst d pl = Some (ns, h')
            \<and> owns (length h) h' ns (simulateMove gs src dst d pl)
            \<and> take (length h) h' = h \<and> length h \<le> length h'"
proof -
  from cloneStateH_owns [OF d] obtain ns h1 where
    c: "cloneStateH h g = Some (ns, h1)" and o1: "owns (length h) h1 ns gs"
    and k1: "take (length h) h1 = h" "length h \<le> length h1" by blast
  show ?thesis
  proof (cases src)
    case Bar
    with r obtain t where dst: "dst = To t" and t: "inBoard gs t"
      by (cases dst) (simp_all add: moveInRange_def)
    from addToBar_owns [OF o1, of pl "- 1"] obtain h2 where
      a: "addToBar h1 ns pl (- 1) = Some h2"
      and o2: "owns (length h) h2 ns (gs\<lparr>bar := setP (bar gs) pl (getP (bar gs) pl - 1)\<rparr>)"
      and k2: "take (length h) h2 = take (length h) h1" "length h1 \<le> length h2" by auto
    from landOnH_owns [OF o2, of t pl] t obtain h3 where
      l: "landOnH h2 ns t pl = Some h3"
      and o3: "owns (length h) h3 ns
                 (landOn (gs\<lparr>bar := setP (bar gs) pl (getP (bar gs) pl - 1)\<rparr>) t pl)"
      and k3: "take (length h) h3 = take (length h) h2" "length h2 \<le> length h3" by auto
    have "simulateMoveH h g src dst d pl = Some (ns, h3)"
      by (simp add: simulateMoveH_def c Bar dst a l)
    then show ?thesis using o3 k1 k2 k3 by (simp add: Bar dst)
  next
    case (Pt f)
    with r have f: "inBoard gs f" by (simp add: moveInRange_def)
    from liftFromH_owns [OF o1 f] obtain h2 where
      a: "liftFromH h1 ns f = Some h2"
      and o2: "owns (length h) h2 ns (liftFrom gs f)"
      and k2: "take (length h) h2 = take (length h) h1" "length h1 \<le> length h2" by auto
    show ?thesis
    proof (cases dst)
      case Bearoff
      from addToBearoff_owns [OF o2, of pl 1] obtain h3 where
        l: "addToBearoff h2 ns pl 1 = Some h3"
        and o3: "owns (length h) h3 ns
                   ((liftFrom gs f)\<lparr>bearoff := setP (bearoff (liftFrom gs f)) pl
                                                 (getP (bearoff (liftFrom gs f)) pl + 1)\<rparr>)"
        and k3: "take (length h) h3 = take (length h) h2" "length h2 \<le> length h3" by auto
      have "simulateMoveH h g src dst d pl = Some (ns, h3)"
        by (simp add: simulateMoveH_def c Pt Bearoff a l)
      then show ?thesis using o3 k1 k2 k3 by (simp add: Pt Bearoff Let_def)
    next
      case (To t)
      with r Pt have t: "inBoard (liftFrom gs f) t" by (simp add: moveInRange_def)
      from landOnH_owns [OF o2 t, of pl] obtain h3 where
        l: "landOnH h2 ns t pl = Some h3"
        and o3: "owns (length h) h3 ns (landOn (liftFrom gs f) t pl)"
        and k3: "take (length h) h3 = take (length h) h2" "length h2 \<le> length h3" by auto
      have "simulateMoveH h g src dst d pl = Some (ns, h3)"
        by (simp add: simulateMoveH_def c Pt To a l)
      then show ?thesis using o3 k1 k2 k3 by (simp add: Pt To)
    qed
  qed
qed

lemma isHighPriorityHitH_denotes:
  assumes d: "denotes h cs gs" and r: "moveInRange gs (from_pt mv) (to_pt mv)"
  shows "isHighPriorityHitH h cs mv pl = Some (isHighPriorityHit gs mv pl)"
proof -
  from d obtain b r f av ps where
    sf: "stateFields h cs = Some (b, r, f, currentPlayer gs, av)"
    and ra: "refArray h b = Some ps"
    and len: "length ps = length (board gs)"
    and pts: "\<forall>j<length ps. pointFields h (ps ! j)
                            = Some (player (board gs ! j), count (board gs ! j))"
    unfolding denotes_def by blast
  show ?thesis
  proof (cases "to_pt mv")
    case Bearoff
    then show ?thesis by (simp add: isHighPriorityHitH_def isHighPriorityHit_def)
  next
    case (To t)
    with r have "inBoard gs t"
      by (cases "from_pt mv") (simp_all add: moveInRange_def)
    then have t: "nat t < length ps" by (simp add: inBoard_def len)
    then have "pointFields h (ps ! nat t)
               = Some (player (pointAt gs t), count (pointAt gs t))"
      using pts by (simp add: pointAt_def)
    then show ?thesis
      using t by (simp add: isHighPriorityHitH_def isHighPriorityHit_def To sf ra)
  qed
qed

lemma board_length_simulateMove [simp]:
  "length (board (simulateMove gs src dst d pl)) = length (board gs)"
proof -
  have l: "length (board (landOn s t pl)) = length (board s)" for s t
    by (simp add: landOn_def Let_def setPoint_def)
  have f: "length (board (liftFrom s k)) = length (board s)" for s k
    by (simp add: liftFrom_def Let_def setPoint_def)
  show ?thesis
    by (cases src; cases dst) (simp_all add: l f Let_def)
qed

lemma board_length_applyStep [simp]:
  "length (board (fst (applyStep pl (gs, sc) mv))) = length (board gs)"
  by (simp add: applyStep_def Let_def)

lemma moveInRange_length:
  "length (board gs') = length (board gs) \<Longrightarrow> moveInRange gs' src dst = moveInRange gs src dst"
  by (simp add: moveInRange_def inBoard_def split: source.splits dest.splits)

lemma applyStepH_owns:
  assumes o: "owns n h cs gs" and r: "moveInRange gs (from_pt mv) (to_pt mv)"
  shows "\<exists>cs' h'. applyStepH pl ((cs, sc), h) mv
                    = Some ((cs', snd (applyStep pl (gs, sc) mv)), h')
            \<and> owns n h' cs' (fst (applyStep pl (gs, sc) mv))
            \<and> take n h' = take n h \<and> length h \<le> length h'"
proof -
  have d: "denotes h cs gs" using o by (rule owns_denotes)
  have nh: "n \<le> length h"
  proof -
    from o obtain v where "stateFields h cs = Some v" and "n \<le> cs"
      unfolding owns_def by blast
    then show ?thesis using stateFields_lt [of h cs v] by simp
  qed
  define gs' where "gs' = simulateMove gs (from_pt mv) (to_pt mv) (die mv) pl"
  from simulateMoveH_owns [OF d r, of "die mv" pl] obtain moved h1 where
    s: "simulateMoveH h cs (from_pt mv) (to_pt mv) (die mv) pl = Some (moved, h1)"
    and o1: "owns (length h) h1 moved gs'"
    and k1: "take (length h) h1 = h" "length h \<le> length h1"
    unfolding gs'_def by blast
  from owns_mono [OF o1 nh] obtain b r f av ps where
    sf: "stateFields h1 moved = Some (b, r, f, currentPlayer gs', av)"
    and ra: "refArray h1 b = Some ps"
    and len: "length ps = length (board gs')"
    and pts: "\<forall>j<length ps. pointFields h1 (ps ! j)
                            = Some (player (board gs' ! j), count (board gs' ! j))"
    and bar: "pairFields h1 r = Some (player1 (bar gs'), player2 (bar gs'))"
    and off: "pairFields h1 f = Some (player1 (bearoff gs'), player2 (bearoff gs'))"
    and mv: "movesOf h1 av = Some (availableMoves gs')"
    and fr: "n \<le> b" "n \<le> r" "n \<le> f" "r \<noteq> f" "distinct ps" "\<forall>p\<in>set ps. n \<le> p"
    unfolding owns_def by blast
  define ds where "ds = remove1 (die mv) (availableMoves gs')"
  define E where "E = [NumArray ds, StateObj b r f (currentPlayer gs') (Some (length h1))]"
  define res where "res = gs'\<lparr>availableMoves := ds\<rparr>"
  have st: "store (h1 @ [NumArray (availableMoves gs')]) (length h1) (NumArray ds)
            = h1 @ [NumArray ds]"
    by (simp add: store_def)
  have run: "applyStepH pl ((cs, sc), h) mv
             = Some ((Suc (length h1), snd (applyStep pl (gs, sc) mv)), h1 @ E)"
    using s sf mv
    by (simp add: applyStepH_def isHighPriorityHitH_denotes [OF d r] alloc_def
        st [unfolded ds_def] E_def ds_def applyStep_def Let_def)
  have pure: "fst (applyStep pl (gs, sc) mv) = res"
    by (simp add: applyStep_def Let_def res_def ds_def gs'_def)
  have o1: "stateFields (h1 @ E) (Suc (length h1))
            = Some (b, r, f, currentPlayer res, Some (length h1))"
    by (simp add: stateFields_def lookup_def E_def res_def nth_append)
  have o6: "movesOf (h1 @ E) (Some (length h1)) = Some (availableMoves res)"
    by (simp add: movesOf_def numArray_def lookup_def E_def res_def nth_append)
  have o3: "\<forall>j<length ps. pointFields (h1 @ E) (ps ! j)
              = Some (player (board res ! j), count (board res ! j))"
    using pts by (simp add: pointFields_append res_def)
  have "owns n (h1 @ E) (Suc (length h1)) res"
    unfolding owns_def
    apply (rule exI [of _ b], rule exI [of _ r], rule exI [of _ f],
        rule exI [of _ "Some (length h1)"], rule exI [of _ ps])
    using o1 o6 o3 refArray_append [OF ra, of E] pairFields_append [OF bar, of E]
      pairFields_append [OF off, of E] len fr nh k1(2)
    by (simp add: res_def)
  moreover have "take n (h1 @ E) = take n h"
  proof -
    have "take n (h1 @ E) = take n h1" using nh k1(2) by simp
    also have "\<dots> = take n (take (length h) h1)" using nh by (simp add: min_def)
    finally show ?thesis by (simp add: k1(1))
  qed
  moreover have "length h \<le> length (h1 @ E)" using k1(2) by simp
  ultimately show ?thesis using run unfolding pure by blast
qed

lemma applyLoopH_owns:
  assumes "owns n h cs gs" and "sequenceInRange gs mvs"
  shows "\<exists>cs' h'. applyLoopH pl ((cs, sc), h) mvs
                    = Some ((cs', snd (foldl (applyStep pl) (gs, sc) mvs)), h')
            \<and> owns n h' cs' (fst (foldl (applyStep pl) (gs, sc) mvs))
            \<and> take n h' = take n h \<and> length h \<le> length h'"
  using assms
proof (induction mvs arbitrary: cs sc h gs)
  case Nil
  then show ?case by simp
next
  case (Cons mv mvs)
  from Cons.prems(2) have r: "moveInRange gs (from_pt mv) (to_pt mv)"
    and rest: "sequenceInRange gs mvs" by (simp_all add: sequenceInRange_def)
  obtain gs1 sc1 where st: "applyStep pl (gs, sc) mv = (gs1, sc1)" by (cases "applyStep pl (gs, sc) mv")
  have "\<exists>cs' h'. applyStepH pl ((cs, sc), h) mv = Some ((cs', sc1), h')
            \<and> owns n h' cs' gs1 \<and> take n h' = take n h \<and> length h \<le> length h'"
    using applyStepH_owns [OF Cons.prems(1) r, of pl sc] unfolding st fst_conv snd_conv .
  then obtain cs1 h1 where
    s: "applyStepH pl ((cs, sc), h) mv = Some ((cs1, sc1), h1)"
    and o1: "owns n h1 cs1 gs1"
    and k1: "take n h1 = take n h" "length h \<le> length h1"
    by blast
  have "length (board gs1) = length (board gs)"
    using board_length_applyStep [of pl gs sc mv] by (simp add: st)
  then have "moveInRange gs1 src dst = moveInRange gs src dst" for src dst
    by (rule moveInRange_length)
  then have "sequenceInRange gs1 mvs"
    using rest by (simp add: sequenceInRange_def)
  from Cons.IH [OF o1 this, of sc1] obtain cs' h' where
    "applyLoopH pl ((cs1, sc1), h1) mvs
       = Some ((cs', snd (foldl (applyStep pl) (gs1, sc1) mvs)), h')"
    "owns n h' cs' (fst (foldl (applyStep pl) (gs1, sc1) mvs))"
    "take n h' = take n h1" "length h1 \<le> length h'" by blast
  then show ?case using s k1 by (simp add: st)
qed

lemma applySequenceAndScoreH_owns:
  assumes d: "denotes h g gs" and r: "sequenceInRange gs mvs"
  shows "\<exists>cs h'. applySequenceAndScoreH h g mvs pl
                   = Some ((cs, snd (applySequenceAndScore gs mvs pl)), h')
            \<and> owns (length h) h' cs (fst (applySequenceAndScore gs mvs pl))
            \<and> take (length h) h' = h"
proof -
  from cloneStateH_owns [OF d] obtain ns h1 where
    c: "cloneStateH h g = Some (ns, h1)" and o1: "owns (length h) h1 ns gs"
    and k1: "take (length h) h1 = h" "length h \<le> length h1" by blast
  from applyLoopH_owns [OF o1 r, of pl 0] obtain cs' h' where
    "applyLoopH pl ((ns, 0), h1) mvs
       = Some ((cs', snd (foldl (applyStep pl) (gs, 0) mvs)), h')"
    "owns (length h) h' cs' (fst (foldl (applyStep pl) (gs, 0) mvs))"
    "take (length h) h' = take (length h) h1" by blast
  then show ?thesis
    using c k1 by (simp add: applySequenceAndScoreH_def applySequenceAndScore_def)
qed

text \<open>The relation and the function describe the same snapshot.\<close>

lemma pointsOf_iff:
  "pointsOf h ps = Some pts \<longleftrightarrow>
     length ps = length pts
     \<and> (\<forall>i<length ps. pointFields h (ps ! i) = Some (player (pts ! i), count (pts ! i)))"
proof (induction ps arbitrary: pts)
  case Nil
  then show ?case by (auto simp: pointsOf_def)
next
  case (Cons p ps)
  have ih: "those (map (\<lambda>a. map_option (\<lambda>(pl, c). \<lparr>player = pl, count = c\<rparr>)
                              (pointFields h a)) ps) = Some qs \<longleftrightarrow>
            length ps = length qs
            \<and> (\<forall>i<length ps. pointFields h (ps ! i) = Some (player (qs ! i), count (qs ! i)))"
    for qs using Cons.IH [of qs] by (simp add: pointsOf_def)
  show ?case
  proof (cases "pointFields h p")
    case None
    then have "pointsOf h (p # ps) \<noteq> Some pts" by (simp add: pointsOf_def)
    moreover have "\<not> (\<forall>i<length (p # ps). pointFields h ((p # ps) ! i)
                                     = Some (player (pts ! i), count (pts ! i)))"
    proof
      assume "\<forall>i<length (p # ps). pointFields h ((p # ps) ! i)
                                     = Some (player (pts ! i), count (pts ! i))"
      then have "pointFields h ((p # ps) ! 0) = Some (player (pts ! 0), count (pts ! 0))"
        by (rule allE [of _ 0]) simp
      then show False using None by simp
    qed
    ultimately show ?thesis by blast
  next
    case (Some v)
    obtain pl c where v: "v = (pl, c)" by (cases v)
    show ?thesis
    proof (cases pts)
      case Nil
      then show ?thesis by (auto simp: pointsOf_def Some split: option.splits)
    next
      case (Cons q qs)
      have "pointsOf h (p # ps) = Some (q # qs) \<longleftrightarrow>
            q = \<lparr>player = pl, count = c\<rparr>
            \<and> those (map (\<lambda>a. map_option (\<lambda>(pl, c). \<lparr>player = pl, count = c\<rparr>)
                                 (pointFields h a)) ps) = Some qs"
        by (auto simp: pointsOf_def Some v split: option.splits)
      also have "\<dots> \<longleftrightarrow> pl = player q \<and> c = count q \<and> length ps = length qs
            \<and> (\<forall>i<length ps. pointFields h (ps ! i) = Some (player (qs ! i), count (qs ! i)))"
        unfolding ih by (cases q) auto
      also have "\<dots> \<longleftrightarrow> length (p # ps) = length (q # qs)
            \<and> (\<forall>i<length (p # ps). pointFields h ((p # ps) ! i)
                                     = Some (player ((q # qs) ! i), count ((q # qs) ! i)))"
        by (auto simp: Some v nth_Cons split: nat.splits)
      finally show ?thesis by (simp only: Cons)
    qed
  qed
qed

lemma absState_iff_denotes: "absState h g = Some gs \<longleftrightarrow> denotes h g gs"
proof
  assume a: "absState h g = Some gs"
  then obtain b r f cp av ps pts x y x' y' ds where
    "stateFields h g = Some (b, r, f, cp, av)" "refArray h b = Some ps"
    "pointsOf h ps = Some pts" "pairFields h r = Some (x, y)" "pairFields h f = Some (x', y')"
    "movesOf h av = Some ds"
    "gs = \<lparr>board = pts, bar = \<lparr>player1 = x, player2 = y\<rparr>,
           bearoff = \<lparr>player1 = x', player2 = y'\<rparr>,
           currentPlayer = cp, availableMoves = ds\<rparr>"
    by (auto simp: absState_def split: Option.bind_splits)
  note facts = this
  show "denotes h g gs"
    unfolding denotes_def
    apply (rule exI [of _ b], rule exI [of _ r], rule exI [of _ f], rule exI [of _ av],
        rule exI [of _ ps])
    using facts by (simp add: pointsOf_iff)
next
  assume "denotes h g gs"
  then obtain b r f av ps where
    sf: "stateFields h g = Some (b, r, f, currentPlayer gs, av)"
    and ra: "refArray h b = Some ps"
    and len: "length ps = length (board gs)"
    and pts: "\<forall>j<length ps. pointFields h (ps ! j)
                            = Some (player (board gs ! j), count (board gs ! j))"
    and bar: "pairFields h r = Some (player1 (bar gs), player2 (bar gs))"
    and off: "pairFields h f = Some (player1 (bearoff gs), player2 (bearoff gs))"
    and mv: "movesOf h av = Some (availableMoves gs)"
    unfolding denotes_def by blast
  have "pointsOf h ps = Some (board gs)" using len pts by (simp add: pointsOf_iff)
  then show "absState h g = Some gs"
    by (simp add: absState_def sf ra bar off mv)
qed

lemma owns_builtAfter: "owns n h ns gs \<Longrightarrow> builtAfter n h ns"
  unfolding owns_def builtAfter_def parts_def
  by (auto simp: list_all_iff split: option.splits)

subsection \<open>The simulator works on its own copy\<close>

text \<open>
  \<^bold>\<open>C10.\<close>  Let \<open>g\<close> refer to a well-formed state in the store, denoting the
  snapshot \<open>gs\<close>.  For every move whose indices exist in the board array,
  \<^verbatim>\<open>simulateMove\<close> returns a reference to a state that denotes the simulated
  snapshot and is built entirely from objects allocated during the call; the
  objects that existed before the call are all unchanged, so \<open>g\<close> still denotes
  \<open>gs\<close>: every point's player and count, both bar counts, both bear-off counts
  and the dice list.  The same holds for \<^verbatim>\<open>applySequenceAndScore\<close> over any
  sequence of such moves, whose score is the one of the value-level model.
\<close>

theorem simulator_leaves_its_input_alone:
  assumes a: "absState h g = Some gs"
  shows "(moveInRange gs src dst \<longrightarrow>
            (\<exists>ns h'. simulateMoveH h g src dst d pl = Some (ns, h')
                \<and> absState h' ns = Some (simulateMove gs src dst d pl)
                \<and> builtAfter (length h) h' ns
                \<and> take (length h) h' = h
                \<and> absState h' g = Some gs))
       \<and> (sequenceInRange gs sequence \<longrightarrow>
            (\<exists>cs h'. applySequenceAndScoreH h g sequence pl
                        = Some ((cs, snd (applySequenceAndScore gs sequence pl)), h')
                \<and> absState h' cs = Some (fst (applySequenceAndScore gs sequence pl))
                \<and> builtAfter (length h) h' cs
                \<and> take (length h) h' = h
                \<and> absState h' g = Some gs))"
proof (intro conjI impI)
  have d: "denotes h g gs" using a by (simp add: absState_iff_denotes)
  {
    assume r: "moveInRange gs src dst"
    from simulateMoveH_owns [OF d r, of d pl] obtain ns h' where
      s: "simulateMoveH h g src dst d pl = Some (ns, h')"
      and o: "owns (length h) h' ns (simulateMove gs src dst d pl)"
      and k: "take (length h) h' = h" by blast
    have "absState h' ns = Some (simulateMove gs src dst d pl)"
      using owns_denotes [OF o] by (simp add: absState_iff_denotes)
    moreover have "builtAfter (length h) h' ns" using o by (rule owns_builtAfter)
    moreover have "absState h' g = Some gs"
      using denotes_extend [OF d k] by (simp add: absState_iff_denotes)
    ultimately show "\<exists>ns h'. simulateMoveH h g src dst d pl = Some (ns, h')
                \<and> absState h' ns = Some (simulateMove gs src dst d pl)
                \<and> builtAfter (length h) h' ns
                \<and> take (length h) h' = h
                \<and> absState h' g = Some gs"
      using s k by blast
  }
  {
    assume r: "sequenceInRange gs sequence"
    from applySequenceAndScoreH_owns [OF d r, of pl] obtain cs h' where
      s: "applySequenceAndScoreH h g sequence pl
            = Some ((cs, snd (applySequenceAndScore gs sequence pl)), h')"
      and o: "owns (length h) h' cs (fst (applySequenceAndScore gs sequence pl))"
      and k: "take (length h) h' = h" by blast
    have "absState h' cs = Some (fst (applySequenceAndScore gs sequence pl))"
      using owns_denotes [OF o] by (simp add: absState_iff_denotes)
    moreover have "builtAfter (length h) h' cs" using o by (rule owns_builtAfter)
    moreover have "absState h' g = Some gs"
      using denotes_extend [OF d k] by (simp add: absState_iff_denotes)
    ultimately show "\<exists>cs h'. applySequenceAndScoreH h g sequence pl
                        = Some ((cs, snd (applySequenceAndScore gs sequence pl)), h')
                \<and> absState h' cs = Some (fst (applySequenceAndScore gs sequence pl))
                \<and> builtAfter (length h) h' cs
                \<and> take (length h) h' = h
                \<and> absState h' g = Some gs"
      using s k by blast
  }
qed

theorem simulator_leaves_its_input_alone_witness:
  "absState openingHeap 29 = Some openingState
   \<and> moveInRange openingState (Pt 8) (To 5)
   \<and> sequenceInRange openingState
       [\<lparr>to_pt = To 5, die = 3, from_pt = Pt 8\<rparr>, \<lparr>to_pt = To 5, die = 1, from_pt = Pt 6\<rparr>]
   \<and> (case simulateMoveH openingHeap 29 (Pt 8) (To 5) 3 2 of
        None \<Rightarrow> False
      | Some (ns, h') \<Rightarrow>
          absState h' ns = Some (simulateMove openingState (Pt 8) (To 5) 3 2)
          \<and> builtAfter (length openingHeap) h' ns
          \<and> take (length openingHeap) h' = openingHeap
          \<and> absState h' 29 = Some openingState)
   \<and> (case applySequenceAndScoreH openingHeap 29
              [\<lparr>to_pt = To 5, die = 3, from_pt = Pt 8\<rparr>, \<lparr>to_pt = To 5, die = 1, from_pt = Pt 6\<rparr>] 2 of
        None \<Rightarrow> False
      | Some ((cs, sc), h') \<Rightarrow>
          sc = 0
          \<and> absState h' cs
              = Some (fst (applySequenceAndScore openingState
                   [\<lparr>to_pt = To 5, die = 3, from_pt = Pt 8\<rparr>,
                    \<lparr>to_pt = To 5, die = 1, from_pt = Pt 6\<rparr>] 2))
          \<and> builtAfter (length openingHeap) h' cs
          \<and> take (length openingHeap) h' = openingHeap
          \<and> absState h' 29 = Some openingState)"
proof -
  let ?sq = "[\<lparr>to_pt = To 5, die = 3, from_pt = Pt 8\<rparr>, \<lparr>to_pt = To 5, die = 1, from_pt = Pt 6\<rparr>]"
  have a: "absState openingHeap 29 = Some openingState" by code_simp
  have m: "moveInRange openingState (Pt 8) (To 5)" by code_simp
  have s: "sequenceInRange openingState ?sq" by code_simp
  have z: "snd (applySequenceAndScore openingState ?sq 2) = 0" by code_simp
  from simulator_leaves_its_input_alone [OF a, of "Pt 8" "To 5" 3 2 ?sq] a m s z
  show ?thesis by auto
qed

end
